theory Spec2Isabelle
  imports Complex_Main
begin

section \<open>Short codes: Base62 over snowflake identifiers (internal/utils/shortcode.go)\<close>

text \<open>
  Go strings are byte sequences; they are modelled as \<open>string\<close> (a list of 8-bit
  characters). \<open>int64\<close> values are modelled as \<open>int\<close>; the one place of
  shortcode.go where 64-bit arithmetic can overflow, the accumulation
  \<open>num*base + value\<close> of \<open>DecodeBase62\<close>, wraps explicitly through \<open>wrap64\<close>.
\<close>

definition base62Chars :: string where
  "base62Chars = ''0123456789abcdefghijklmnopqrstuvwxyzABCDEFGHIJKLMNOPQRSTUVWXYZ''"

text \<open>\<open>base := int64(len(base62Chars))\<close>\<close>

definition base :: int where
  "base = int (length base62Chars)"

text \<open>Two's complement wrap-around of a mathematical integer into the \<open>int64\<close> range.\<close>

definition wrap64 :: "int \<Rightarrow> int" where
  "wrap64 x = (x + 2 ^ 63) mod 2 ^ 64 - 2 ^ 63"

text \<open>
  The loop \<open>for num > 0 { remainder := num % base; result.WriteByte(base62Chars[remainder]);
  num = num / base }\<close> of \<open>EncodeBase62\<close>, with the \<open>strings.Builder\<close> as an accumulator.
  The body only runs for positive \<open>num\<close>, where Go's truncating \<open>/\<close> and \<open>%\<close> agree
  with \<open>div\<close> and \<open>mod\<close>, and \<open>0 \<le> remainder < 62\<close> keeps the index in range.
\<close>

function encode_loop :: "int \<Rightarrow> string \<Rightarrow> string" where
  "encode_loop num result =
     (if num > 0
      then encode_loop (num div base) (result @ [base62Chars ! nat (num mod base)])
      else result)"
  by pat_completeness auto
termination
  by (relation "measure (\<lambda>(num, result). nat num)") (auto simp: base_def base62Chars_def)

text \<open>
  \<open>reverseString\<close>: the two-index swap loop
  \<open>for i, j := 0, len(runes)-1; i < j; i, j = i+1, j-1 { runes[i], runes[j] = runes[j], runes[i] }\<close>.
  The function is only applied to the output of the encoding loop, which is ASCII, so
  the runes of the string are its bytes.
\<close>

function reverse_loop :: "'a list \<Rightarrow> int \<Rightarrow> int \<Rightarrow> 'a list" where
  "reverse_loop runes i j =
     (if i < j
      then reverse_loop (runes[nat i := runes ! nat j, nat j := runes ! nat i]) (i + 1) (j - 1)
      else runes)"
  by pat_completeness auto
termination
  by (relation "measure (\<lambda>(runes, i, j). nat (j - i))") auto

definition reverseString :: "string \<Rightarrow> string" where
  "reverseString s = reverse_loop s 0 (int (length s) - 1)"

definition EncodeBase62 :: "int \<Rightarrow> string" where
  "EncodeBase62 num =
     (if num = 0 then [base62Chars ! 0]
      else reverseString (encode_loop num []))"

text \<open>
  The \<open>switch\<close> of \<open>DecodeBase62\<close> on one byte: \<open>Some\<close> the digit value, \<open>None\<close> for the
  \<open>default\<close> branch.
\<close>

definition char_value :: "char \<Rightarrow> int option" where
  "char_value c =
     (if (of_char (CHR ''0'') :: nat) \<le> of_char c \<and> (of_char c :: nat) \<le> of_char (CHR ''9'')
        then Some (int (of_char c - of_char (CHR ''0'')))
      else if (of_char (CHR ''a'') :: nat) \<le> of_char c \<and> (of_char c :: nat) \<le> of_char (CHR ''z'')
        then Some (int (of_char c - of_char (CHR ''a'')) + 10)
      else if (of_char (CHR ''A'') :: nat) \<le> of_char c \<and> (of_char c :: nat) \<le> of_char (CHR ''Z'')
        then Some (int (of_char c - of_char (CHR ''A'')) + 36)
      else None)"

text \<open>
  The loop of \<open>DecodeBase62\<close> over the bytes of the string: an unknown byte returns 0
  from the whole function; otherwise \<open>num = num*base + value\<close> in \<open>int64\<close>.
\<close>

fun decode_loop :: "string \<Rightarrow> int \<Rightarrow> int" where
  "decode_loop [] num = num"
| "decode_loop (c # cs) num =
     (case char_value c of
        None \<Rightarrow> 0
      | Some v \<Rightarrow> decode_loop cs (wrap64 (num * base + v)))"

definition DecodeBase62 :: "string \<Rightarrow> int" where
  "DecodeBase62 encoded = decode_loop encoded 0"

text \<open>
  Proof device: the digits written by the encoding loop, least significant first.
\<close>

function digits :: "int \<Rightarrow> string" where
  "digits n = (if n > 0 then base62Chars ! nat (n mod base) # digits (n div base) else [])"
  by pat_completeness auto
termination
  by (relation "measure nat") (auto simp: base_def base62Chars_def)

section \<open>Base62 round trip\<close>

declare encode_loop.simps [simp del]
declare reverse_loop.simps [simp del]
declare digits.simps [simp del]

lemma base_62: "base = 62"
  by (simp add: base_def base62Chars_def)

lemma wrap64_id: "- (2 ^ 63) \<le> x \<Longrightarrow> x < 2 ^ 63 \<Longrightarrow> wrap64 x = x"
  by (simp add: wrap64_def)

lemma wrap64_numeral [simp]:
  "wrap64 0 = 0" "wrap64 1 = 1" "wrap64 (- 1) = - 1"
  "wrap64 (numeral n) = (numeral n + 2 ^ 63) mod 2 ^ 64 - 2 ^ 63"
  "wrap64 (- numeral n) = (- numeral n + 2 ^ 63) mod 2 ^ 64 - 2 ^ 63"
  by (simp_all add: wrap64_def)

lemma digit_value_all: "\<forall>d\<in>set [0..<62]. char_value (base62Chars ! d) = Some (int d)"
  by (simp add: base62Chars_def char_value_def upt_rec)

lemma digit_value: "d < 62 \<Longrightarrow> char_value (base62Chars ! d) = Some (int d)"
  using digit_value_all by simp

lemma encode_loop_digits: "encode_loop num result = result @ digits num"
proof (induction num result rule: encode_loop.induct)
  case (1 num result)
  show ?case
  proof (cases "num > 0")
    case True
    then have "encode_loop num result =
        (result @ [base62Chars ! nat (num mod base)]) @ digits (num div base)"
      using 1 by (subst encode_loop.simps) simp
    also have "\<dots> = result @ digits num"
      using True by (subst (2) digits.simps) simp
    finally show ?thesis .
  next
    case False
    then show ?thesis by (subst digits.simps, subst encode_loop.simps) simp
  qed
qed

lemma length_reverse_loop: "length (reverse_loop xs i j) = length xs"
proof (induction xs i j rule: reverse_loop.induct)
  case (1 runes i j)
  show ?case
  proof (cases "i < j")
    case True
    have "reverse_loop runes i j =
        reverse_loop (runes[nat i := runes ! nat j, nat j := runes ! nat i]) (i + 1) (j - 1)"
      using True by (subst reverse_loop.simps) simp
    then show ?thesis using 1 True by simp
  next
    case False
    then show ?thesis by (subst reverse_loop.simps) simp
  qed
qed

lemma nth_reverse_loop:
  "0 \<le> i \<Longrightarrow> j < int (length xs) \<Longrightarrow> k < length xs \<Longrightarrow>
   reverse_loop xs i j ! k =
     (if i \<le> int k \<and> int k \<le> j then xs ! nat (i + j - int k) else xs ! k)"
proof (induction xs i j rule: reverse_loop.induct)
  case (1 runes i j)
  show ?case
  proof (cases "i < j")
    case True
    let ?xs = "runes[nat i := runes ! nat j, nat j := runes ! nat i]"
    have IH: "reverse_loop ?xs (i + 1) (j - 1) ! k =
       (if i + 1 \<le> int k \<and> int k \<le> j - 1
        then ?xs ! nat (i + 1 + (j - 1) - int k) else ?xs ! k)"
      using 1 True by simp
    have unf: "reverse_loop runes i j = reverse_loop ?xs (i + 1) (j - 1)"
      using True by (subst reverse_loop.simps) simp
    have ij: "nat i < length runes" "nat j < length runes" "nat i \<noteq> nat j"
      using 1(2,3) True by auto
    consider "int k = i" | "int k = j" | "i < int k" "int k < j" | "int k < i" | "j < int k"
      by linarith
    then show ?thesis
    proof cases
      case 1
      then have "nat i = k" by simp
      then show ?thesis unfolding unf IH using 1 True ij by (simp add: nth_list_update)
    next
      case 2
      then have "nat j = k" by simp
      then show ?thesis unfolding unf IH using 2 True ij by (simp add: nth_list_update)
    next
      case 3
      then have "nat (i + 1 + (j - 1) - int k) \<noteq> nat i"
        "nat (i + 1 + (j - 1) - int k) \<noteq> nat j"
        "nat (i + 1 + (j - 1) - int k) < length runes"
        "i + 1 + (j - 1) - int k = i + j - int k"
        using \<open>0 \<le> i\<close> \<open>j < int (length runes)\<close> by auto
      then show ?thesis unfolding unf IH using 3 True ij by (simp add: nth_list_update)
    next
      case 4
      then have "k \<noteq> nat i" "k \<noteq> nat j" using True \<open>0 \<le> i\<close> by auto
      then show ?thesis unfolding unf IH using 4 True ij by (simp add: nth_list_update)
    next
      case 5
      then have "k \<noteq> nat i" "k \<noteq> nat j" using True \<open>0 \<le> i\<close> by auto
      then show ?thesis unfolding unf IH using 5 True ij by (simp add: nth_list_update)
    qed
  next
    case False
    have "i \<le> int k \<and> int k \<le> j \<Longrightarrow> nat (i + j - int k) = k"
      using False by linarith
    then show ?thesis using False by (subst reverse_loop.simps) auto
  qed
qed

lemma reverseString_rev: "reverseString s = rev s"
proof (rule nth_equalityI)
  show "length (reverseString s) = length (rev s)"
    by (simp add: reverseString_def length_reverse_loop)
next
  fix k assume "k < length (reverseString s)"
  then have k: "k < length s" by (simp add: reverseString_def length_reverse_loop)
  then have "reverse_loop s 0 (int (length s) - 1) ! k =
      s ! nat (0 + (int (length s) - 1) - int k)"
    by (subst nth_reverse_loop) auto
  moreover have "nat (0 + (int (length s) - 1) - int k) = length s - Suc k"
    using k by linarith
  ultimately show "reverseString s ! k = rev s ! k"
    using k by (simp add: reverseString_def rev_nth)
qed

lemma decode_loop_append:
  "\<forall>c\<in>set xs. char_value c \<noteq> None \<Longrightarrow>
   decode_loop (xs @ ys) acc = decode_loop ys (decode_loop xs acc)"
  by (induction xs arbitrary: acc) (auto split: option.splits)

lemma digits_valid: "c \<in> set (digits n) \<Longrightarrow> char_value c \<noteq> None"
proof (induction n rule: digits.induct)
  case (1 n)
  show ?case
  proof (cases "n > 0")
    case True
    have "nat (n mod base) < 62" using True by (simp add: base_62 nat_less_iff)
    then have v: "char_value (base62Chars ! nat (n mod base)) \<noteq> None"
      by (simp add: digit_value)
    have "c = base62Chars ! nat (n mod base) \<or> c \<in> set (digits (n div base))"
      using 1(2) True by (subst (asm) digits.simps) simp
    then show ?thesis using v 1(1)[OF True] by blast
  next
    case False
    then show ?thesis using 1(2) by (subst (asm) digits.simps) simp
  qed
qed

lemma decode_rev_digits:
  "0 \<le> n \<Longrightarrow> n < 2 ^ 63 \<Longrightarrow> decode_loop (rev (digits n)) 0 = n"
proof (induction n rule: digits.induct)
  case (1 n)
  show ?case
  proof (cases "n > 0")
    case True
    let ?d = "nat (n mod base)"
    have d: "?d < 62" using True by (simp add: base_62 nat_less_iff)
    have q: "0 \<le> n div base" "n div base < 2 ^ 63"
      using True 1(3) by (simp_all add: base_62 div_less_iff_less_mult)
    have IH: "decode_loop (rev (digits (n div base))) 0 = n div base"
      using 1(1)[OF True q] .
    have "rev (digits n) = rev (digits (n div base)) @ [base62Chars ! ?d]"
      using True by (subst digits.simps) simp
    then have "decode_loop (rev (digits n)) 0 =
        decode_loop [base62Chars ! ?d] (decode_loop (rev (digits (n div base))) 0)"
      using digits_valid by (simp add: decode_loop_append)
    also have "\<dots> = wrap64 (n div base * base + int ?d)"
      using d IH by (simp add: digit_value)
    also have "n div base * base + int ?d = n"
      using True by (simp add: base_62)
    finally show ?thesis using 1(2,3) by (simp add: wrap64_id)
  next
    case False
    then show ?thesis using 1(2) by (subst digits.simps) simp
  qed
qed

lemma decode_encode_roundtrip:
  "0 \<le> n \<Longrightarrow> n < 2 ^ 63 \<Longrightarrow> DecodeBase62 (EncodeBase62 n) = n"
proof (cases "n = 0")
  case True
  have "char_value (base62Chars ! 0) = Some 0" using digit_value[of 0] by simp
  then show ?thesis using True by (simp add: DecodeBase62_def EncodeBase62_def wrap64_def)
next
  case False
  assume "0 \<le> n" "n < 2 ^ 63"
  then show ?thesis using False decode_rev_digits[of n]
    by (simp add: DecodeBase62_def EncodeBase62_def reverseString_rev encode_loop_digits)
qed

lemma EncodeBase62_12345: "EncodeBase62 12345 = ''3d7''"
  by (simp add: EncodeBase62_def encode_loop.simps base_62 base62Chars_def reverseString_rev)

text \<open>
  Claim C10. For every non-negative 64-bit integer \<open>n\<close>, decoding the Base62 encoding
  of \<open>n\<close> gives \<open>n\<close> back: the encoding that turns snowflake identifiers into short
  codes is reversible on non-negative inputs.
\<close>

theorem DecodeBase62_EncodeBase62:
  "0 \<le> n \<Longrightarrow> n < 2 ^ 63 \<Longrightarrow> DecodeBase62 (EncodeBase62 n) = n"
  by (rule decode_encode_roundtrip)

theorem DecodeBase62_EncodeBase62_witness:
  "(0::int) \<le> 12345 \<and> (12345::int) < 2 ^ 63 \<and> EncodeBase62 12345 = ''3d7''
   \<and> DecodeBase62 ''3d7'' = 12345"
  using DecodeBase62_EncodeBase62[of 12345] EncodeBase62_12345 by simp

text \<open>Reversibility makes the encoding injective on the non-negative 64-bit integers.\<close>

corollary EncodeBase62_inj:
  "0 \<le> a \<Longrightarrow> a < 2 ^ 63 \<Longrightarrow> 0 \<le> b \<Longrightarrow> b < 2 ^ 63 \<Longrightarrow>
   EncodeBase62 a = EncodeBase62 b \<Longrightarrow> a = b"
  by (metis decode_encode_roundtrip)

section \<open>Existence filter (internal/filter/bloom.go)\<close>

text \<open>
  \<open>BloomFilter\<close> wraps a filter of the library \<open>github.com/bits-and-blooms/bloom/v3\<close>
  behind a read/write mutex. The mutex makes every operation of the wrapper run alone,
  so an operation is a function from the filter state to the filter state.
\<close>

text \<open>
  Modelled from the spec: the library filter \<open>bloom.BloomFilter\<close> is not among the
  sources. The spec describes the filter state as ``a fixed-size bit array plus a derived
  set of hash functions, sized for a target capacity and false-positive rate'': \<open>bf_m\<close>
  bits \<open>bf_b\<close> and \<open>bf_k\<close> hash functions. The hash functions are a parameter \<open>h\<close>
  of the operations: \<open>h key i\<close> is the \<open>i\<close>-th hash of \<open>key\<close>.
\<close>

record bloom =
  bf_m :: nat
  bf_k :: nat
  bf_b :: "bool list"

text \<open>
  Modelled from the spec: the position in the bit array that the \<open>i\<close>-th hash function
  gives a key (the library's hashing is not among the sources).
\<close>

definition location :: "(string \<Rightarrow> nat \<Rightarrow> nat) \<Rightarrow> bloom \<Rightarrow> string \<Rightarrow> nat \<Rightarrow> nat" where
  "location h f key i = h key i mod bf_m f"

text \<open>
  Modelled from the spec: the library's \<open>NewWithEstimates\<close>, an empty filter ``sized for
  a target capacity and false-positive rate''. The sizing is floating-point arithmetic
  and is the parameter \<open>est\<close>; the filter has at least one bit and one hash function.
\<close>

definition NewWithEstimates :: "(nat \<Rightarrow> 'r \<Rightarrow> nat \<times> nat) \<Rightarrow> nat \<Rightarrow> 'r \<Rightarrow> bloom" where
  "NewWithEstimates est n fp =
     (case est n fp of (m, k) \<Rightarrow>
        \<lparr>bf_m = max 1 m, bf_k = max 1 k, bf_b = replicate (max 1 m) False\<rparr>)"

text \<open>
  Modelled from the spec: the library's \<open>AddString\<close>, which ``marks a key as having been
  observed'': it sets the bit at each of the key's positions.
\<close>

definition AddString :: "(string \<Rightarrow> nat \<Rightarrow> nat) \<Rightarrow> bloom \<Rightarrow> string \<Rightarrow> bloom" where
  "AddString h f key =
     f\<lparr>bf_b := fold (\<lambda>i b. b[location h f key i := True]) [0..<bf_k f] (bf_b f)\<rparr>"

text \<open>
  Modelled from the spec: the library's \<open>TestString\<close>, possibly-present exactly when the
  bit at each of the key's positions is set.
\<close>

definition TestString :: "(string \<Rightarrow> nat \<Rightarrow> nat) \<Rightarrow> bloom \<Rightarrow> string \<Rightarrow> bool" where
  "TestString h f key = list_all (\<lambda>i. bf_b f ! location h f key i) [0..<bf_k f]"

text \<open>Modelled from the spec: the library's \<open>ClearAll\<close>, which clears every bit.\<close>

definition ClearAll :: "bloom \<Rightarrow> bloom" where
  "ClearAll f = f\<lparr>bf_b := replicate (bf_m f) False\<rparr>"

text \<open>The wrapper of the repository: \<open>NewBloomFilter\<close>, \<open>Add\<close>, \<open>Test\<close>, \<open>AddBatch\<close>, \<open>Clear\<close>.\<close>

definition NewBloomFilter :: "(nat \<Rightarrow> 'r \<Rightarrow> nat \<times> nat) \<Rightarrow> nat \<Rightarrow> 'r \<Rightarrow> bloom" where
  "NewBloomFilter est capacity fpRate = NewWithEstimates est capacity fpRate"

definition Add :: "(string \<Rightarrow> nat \<Rightarrow> nat) \<Rightarrow> bloom \<Rightarrow> string \<Rightarrow> bloom" where
  "Add h bf shortCode = AddString h bf shortCode"

definition Test :: "(string \<Rightarrow> nat \<Rightarrow> nat) \<Rightarrow> bloom \<Rightarrow> string \<Rightarrow> bool" where
  "Test h bf shortCode = TestString h bf shortCode"

text \<open>\<open>for _, code := range shortCodes { bf.filter.AddString(code) }\<close>\<close>

definition AddBatch :: "(string \<Rightarrow> nat \<Rightarrow> nat) \<Rightarrow> bloom \<Rightarrow> string list \<Rightarrow> bloom" where
  "AddBatch h bf shortCodes = fold (\<lambda>code f. AddString h f code) shortCodes bf"

definition Clear :: "bloom \<Rightarrow> bloom" where
  "Clear bf = ClearAll bf"

text \<open>
  A history of calls on one filter. \<open>Test\<close> only reads, so it leaves the state as it is.
\<close>

datatype filter_op = OpAdd string | OpAddBatch "string list" | OpTest string | OpClear

fun apply_op :: "(string \<Rightarrow> nat \<Rightarrow> nat) \<Rightarrow> bloom \<Rightarrow> filter_op \<Rightarrow> bloom" where
  "apply_op h bf (OpAdd code) = Add h bf code"
| "apply_op h bf (OpAddBatch codes) = AddBatch h bf codes"
| "apply_op h bf (OpTest code) = bf"
| "apply_op h bf OpClear = Clear bf"

definition run_ops :: "(string \<Rightarrow> nat \<Rightarrow> nat) \<Rightarrow> bloom \<Rightarrow> filter_op list \<Rightarrow> bloom" where
  "run_ops h bf ops = foldl (apply_op h) bf ops"

fun adds_key :: "filter_op \<Rightarrow> string \<Rightarrow> bool" where
  "adds_key (OpAdd code) key = (code = key)"
| "adds_key (OpAddBatch codes) key = (key \<in> set codes)"
| "adds_key (OpTest code) key = False"
| "adds_key OpClear key = False"

text \<open>A sample family of hash functions, used to run the filter on concrete inputs.\<close>

definition h_demo :: "string \<Rightarrow> nat \<Rightarrow> nat" where
  "h_demo key i = length key + 3 * i"


section \<open>The existence filter has no false negatives\<close>

text \<open>The filter state is well formed: the bit array has \<open>bf_m\<close> bits, and \<open>bf_m\<close> is positive.\<close>

definition bloom_wf :: "bloom \<Rightarrow> bool" where
  "bloom_wf f \<longleftrightarrow> 0 < bf_m f \<and> length (bf_b f) = bf_m f"

lemma set_bits_length: "length (fold (\<lambda>i b. b[g i := True]) is b) = length b"
  by (induction "is" arbitrary: b) auto

lemma set_bits_keeps: "b ! j \<Longrightarrow> j < length b \<Longrightarrow> fold (\<lambda>i b. b[g i := True]) is b ! j"
proof (induction "is" arbitrary: b)
  case Nil
  then show ?case by simp
next
  case (Cons a "is")
  have "b[g a := True] ! j" "j < length (b[g a := True])"
    using Cons.prems by (cases "g a = j"; simp)+
  then show ?case using Cons.IH by simp
qed

lemma set_bits_sets:
  "i \<in> set is \<Longrightarrow> g i < length b \<Longrightarrow> fold (\<lambda>i b. b[g i := True]) is b ! g i"
proof (induction "is" arbitrary: b)
  case Nil
  then show ?case by simp
next
  case (Cons a "is")
  show ?case
  proof (cases "i = a")
    case True
    then show ?thesis using Cons.prems by (simp add: set_bits_keeps)
  next
    case False
    then show ?thesis using Cons by simp
  qed
qed

lemma wf_New: "bloom_wf (NewBloomFilter est n fp)"
  by (simp add: bloom_wf_def NewBloomFilter_def NewWithEstimates_def max_def split: prod.splits)

lemma wf_AddString: "bloom_wf f \<Longrightarrow> bloom_wf (AddString h f key)"
  by (simp add: bloom_wf_def AddString_def set_bits_length)

lemma wf_AddBatch: "bloom_wf f \<Longrightarrow> bloom_wf (AddBatch h f keys)"
  unfolding AddBatch_def by (induction keys arbitrary: f) (auto simp: wf_AddString)

lemma wf_ClearAll: "bloom_wf f \<Longrightarrow> bloom_wf (ClearAll f)"
  by (simp add: ClearAll_def bloom_wf_def)

lemma wf_apply_op: "bloom_wf f \<Longrightarrow> bloom_wf (apply_op h f op)"
  by (cases op) (simp_all add: Add_def wf_AddString wf_AddBatch Clear_def wf_ClearAll)

lemma wf_run_ops: "bloom_wf f \<Longrightarrow> bloom_wf (run_ops h f ops)"
  unfolding run_ops_def by (induction ops arbitrary: f) (auto simp: wf_apply_op)

lemma location_bound: "bloom_wf f \<Longrightarrow> location h f key i < length (bf_b f)"
  by (simp add: bloom_wf_def location_def)

lemma location_AddString [simp]: "location h (AddString h' f key') key i = location h f key i"
  by (simp add: location_def AddString_def)

lemma Test_AddString:
  assumes "bloom_wf f"
  shows "TestString h (AddString h f key) key"
proof -
  have "fold (\<lambda>i b. b[location h f key i := True]) [0..<bf_k f] (bf_b f) ! location h f key i"
    if "i < bf_k f" for i
    using that assms by (intro set_bits_sets) (simp_all add: location_bound)
  then show ?thesis
    by (simp add: TestString_def list_all_iff) (simp add: AddString_def)
qed

lemma Test_mono_AddString:
  assumes "bloom_wf f" and "TestString h f key"
  shows "TestString h (AddString h f key') key"
proof -
  have "fold (\<lambda>i b. b[location h f key' i := True]) [0..<bf_k f] (bf_b f) ! location h f key i"
    if "i < bf_k f" for i
    using that assms
    by (intro set_bits_keeps) (simp_all add: location_bound TestString_def list_all_iff)
  then show ?thesis
    by (simp add: TestString_def list_all_iff) (simp add: AddString_def)
qed

lemma Test_mono_AddBatch:
  "bloom_wf f \<Longrightarrow> TestString h f key \<Longrightarrow> TestString h (AddBatch h f keys) key"
  unfolding AddBatch_def
  by (induction keys arbitrary: f) (auto simp: wf_AddString Test_mono_AddString)

lemma Test_AddBatch:
  "bloom_wf f \<Longrightarrow> key \<in> set keys \<Longrightarrow> TestString h (AddBatch h f keys) key"
proof (induction keys arbitrary: f)
  case Nil
  then show ?case by simp
next
  case (Cons a keys)
  show ?case
  proof (cases "a = key")
    case True
    have "TestString h (AddBatch h (AddString h f key) keys) key"
      using Cons.prems(1) by (intro Test_mono_AddBatch wf_AddString Test_AddString)
    then show ?thesis using True by (simp add: AddBatch_def)
  next
    case False
    then have "key \<in> set keys" using Cons.prems by simp
    then have "TestString h (AddBatch h (AddString h f a) keys) key"
      using Cons.IH Cons.prems(1) wf_AddString by blast
    then show ?thesis by (simp add: AddBatch_def)
  qed
qed

lemma Test_apply_adds: "bloom_wf f \<Longrightarrow> adds_key op key \<Longrightarrow> Test h (apply_op h f op) key"
  by (cases op) (auto simp: Test_def Add_def Test_AddString Test_AddBatch)

lemma Test_mono_apply:
  "bloom_wf f \<Longrightarrow> op \<noteq> OpClear \<Longrightarrow> Test h f key \<Longrightarrow> Test h (apply_op h f op) key"
  by (cases op) (auto simp: Test_def Add_def Test_mono_AddString Test_mono_AddBatch)

lemma Test_mono_run:
  "bloom_wf f \<Longrightarrow> OpClear \<notin> set ops \<Longrightarrow> Test h f key \<Longrightarrow> Test h (run_ops h f ops) key"
  unfolding run_ops_def
  by (induction ops arbitrary: f) (auto simp: wf_apply_op Test_mono_apply)

lemma filter_keeps_added_key:
  assumes "adds_key op key" and "OpClear \<notin> set later"
  shows "Test h (run_ops h (NewBloomFilter est capacity fpRate) (earlier @ [op] @ later)) key"
proof -
  let ?f = "run_ops h (NewBloomFilter est capacity fpRate) earlier"
  have wf: "bloom_wf ?f" by (simp add: wf_New wf_run_ops)
  have "Test h (apply_op h ?f op) key" using wf assms(1) by (rule Test_apply_adds)
  then have "Test h (run_ops h (apply_op h ?f op) later) key"
    using wf assms(2) by (intro Test_mono_run wf_apply_op)
  then show ?thesis by (simp add: run_ops_def)
qed

text \<open>
  Claim C6. Take any history of calls on a filter built by \<open>NewBloomFilter\<close>: calls
  \<open>earlier\<close>, then a call \<open>op\<close> that adds \<open>key\<close> (an \<open>Add\<close> of the key or an \<open>AddBatch\<close>
  containing it), then calls \<open>later\<close> among which there is no \<open>Clear\<close>. A \<open>Test\<close> of
  \<open>key\<close> after that history returns possibly-present. Since \<open>later\<close> is arbitrary, every
  \<open>Test\<close> of the key made after it was added returns \<open>True\<close>: no false negative, for
  every family of hash functions and every sizing.
\<close>

theorem bloom_no_false_negative:
  "adds_key op key \<Longrightarrow> OpClear \<notin> set later \<Longrightarrow>
   Test h (run_ops h (NewBloomFilter est capacity fpRate) (earlier @ [op] @ later)) key"
  by (rule filter_keeps_added_key)

theorem bloom_no_false_negative_witness:
  "adds_key (OpAdd ''abc'') ''abc''
   \<and> OpClear \<notin> set [OpTest ''abc'', OpAddBatch [''q'', ''rs'']]
   \<and> Test h_demo
        (run_ops h_demo (NewBloomFilter (\<lambda>n (fp::nat). (8, 2)) 100 1)
           ([OpAdd ''zz''] @ [OpAdd ''abc''] @ [OpTest ''abc'', OpAddBatch [''q'', ''rs'']]))
        ''abc''"
  using bloom_no_false_negative [of "OpAdd ''abc''" "''abc''"
      "[OpTest ''abc'', OpAddBatch [''q'', ''rs'']]" h_demo "\<lambda>n (fp::nat). (8, 2)" 100 1
      "[OpAdd ''zz'']"]
  by simp

text \<open>A \<open>Clear\<close> after the insertion does lose the key, so the exclusion of \<open>Clear\<close> is needed.\<close>

lemma bloom_clear_forgets:
  "\<not> Test h_demo
       (run_ops h_demo (NewBloomFilter (\<lambda>n (fp::nat). (8, 2)) 100 1)
          [OpAdd ''zz'', OpAdd ''abc'', OpClear])
       ''abc''"
  by (simp add: run_ops_def NewBloomFilter_def NewWithEstimates_def Add_def AddString_def
      Test_def TestString_def location_def h_demo_def Clear_def ClearAll_def upt_rec)

section \<open>Resolution cascade (internal/service/url_service.go)\<close>

text \<open>
  Times are nanoseconds since the Unix epoch (\<open>int\<close>); \<open>time.Now()\<close> is a parameter
  \<open>now\<close> of every function that reads the clock.
\<close>

record URLMapping =
  ID :: nat
  ShortCode :: string
  OriginalURL :: string
  CreatedAt :: int
  ExpiredAt :: "int option"
  VisitCount :: nat
  Status :: int

definition IsExpired :: "int \<Rightarrow> URLMapping \<Rightarrow> bool" where
  "IsExpired now u = (case ExpiredAt u of None \<Rightarrow> False | Some t \<Rightarrow> t < now)"

definition IsActive :: "int \<Rightarrow> URLMapping \<Rightarrow> bool" where
  "IsActive now u \<longleftrightarrow> Status u = 1 \<and> \<not> IsExpired now u"

text \<open>
  The two stores behind the service, each with the calls made on it. The cache
  (internal/cache/redis.go) is the part of the shared key-value store under the prefix
  \<open>short:code:\<close>: a map from keys to a value and its expiry time; \<open>cache_down\<close> says
  that the store answers with a transport error. The durable store (the repository) is
  the table of mappings; \<open>db_down\<close> says that a query fails. \<open>calls\<close> is the log
  of the accesses made to either of them, latest last.
\<close>

datatype access = CacheGet string | CacheSet string string | RepoGetByShortCode string

datatype svc_error = ErrNotFound | ErrInactive | ErrRepo | ErrCache

record world =
  bloom_filter :: bloom
  cache :: "string \<Rightarrow> (string \<times> int) option"
  cache_down :: bool
  table :: "URLMapping list"
  db_down :: bool
  calls :: "access list"

definition ShortCodePrefix :: string where
  "ShortCodePrefix = ''short:code:''"

text \<open>\<open>DefaultTTL = 24 * time.Hour\<close>, in nanoseconds.\<close>

definition DefaultTTL :: int where
  "DefaultTTL = 24 * 3600 * 10 ^ 9"

text \<open>
  \<open>RedisCache.Get\<close>: a missing (or expired) key is a miss, \<open>("", nil)\<close>; a transport
  error is returned with the empty string.
\<close>

definition cache_Get :: "int \<Rightarrow> world \<Rightarrow> string \<Rightarrow> (string \<times> svc_error option) \<times> world" where
  "cache_Get now w shortCode =
     (let key = ShortCodePrefix @ shortCode;
          w' = w\<lparr>calls := calls w @ [CacheGet key]\<rparr>
      in if cache_down w then (([], Some ErrCache), w')
         else (case cache w key of
                 None \<Rightarrow> (([], None), w')
               | Some (v, expiry) \<Rightarrow>
                   if expiry \<le> now then (([], None), w') else ((v, None), w')))"

text \<open>\<open>RedisCache.SetWithTTL\<close> and \<open>RedisCache.Set\<close>.\<close>

definition cache_SetWithTTL ::
  "int \<Rightarrow> world \<Rightarrow> string \<Rightarrow> string \<Rightarrow> int \<Rightarrow> svc_error option \<times> world" where
  "cache_SetWithTTL now w shortCode originalURL ttl =
     (let key = ShortCodePrefix @ shortCode;
          w' = w\<lparr>calls := calls w @ [CacheSet key originalURL]\<rparr>
      in if cache_down w then (Some ErrCache, w')
         else (None, w'\<lparr>cache := (cache w)(key \<mapsto> (originalURL, now + ttl))\<rparr>))"

definition cache_Set :: "int \<Rightarrow> world \<Rightarrow> string \<Rightarrow> string \<Rightarrow> svc_error option \<times> world" where
  "cache_Set now w shortCode originalURL = cache_SetWithTTL now w shortCode originalURL DefaultTTL"

text \<open>
  \<open>URLRepository.GetByShortCode\<close>: the first row with the short code, \<open>(nil, nil)\<close> when
  there is none, an error when the query fails.
\<close>

definition repo_GetByShortCode ::
  "world \<Rightarrow> string \<Rightarrow> (URLMapping option \<times> svc_error option) \<times> world" where
  "repo_GetByShortCode w shortCode =
     (let w' = w\<lparr>calls := calls w @ [RepoGetByShortCode shortCode]\<rparr>
      in if db_down w then ((None, Some ErrRepo), w')
         else ((find (\<lambda>m. ShortCode m = shortCode) (table w), None), w'))"

text \<open>
  \<open>URLService.GetOriginalURL\<close>, the cascade filter, cache, durable store. The result is the
  pair \<open>(string, error)\<close> of the source and the world after the call.
\<close>

definition GetOriginalURL ::
  "(string \<Rightarrow> nat \<Rightarrow> nat) \<Rightarrow> int \<Rightarrow> world \<Rightarrow> string \<Rightarrow> (string \<times> svc_error option) \<times> world" where
  "GetOriginalURL h now w shortCode =
     (if \<not> Test h (bloom_filter w) shortCode then (([], Some ErrNotFound), w)
      else
        (case cache_Get now w shortCode of ((originalURL, err), w1) \<Rightarrow>
           if originalURL \<noteq> [] then ((originalURL, None), w1)
           else
             (case repo_GetByShortCode w1 shortCode of ((mapping, err), w2) \<Rightarrow>
                if err \<noteq> None then (([], err), w2)
                else
                  (case mapping of
                     None \<Rightarrow> (([], Some ErrNotFound), w2)
                   | Some m \<Rightarrow>
                       if \<not> IsActive now m then (([], Some ErrInactive), w2)
                       else
                         (case cache_Set now w2 shortCode (OriginalURL m) of (err, w3) \<Rightarrow>
                            ((OriginalURL m, None), w3))))))"

text \<open>A sample world: the filter holds \<open>abc\<close> only, the table holds \<open>abc\<close> and \<open>abcd\<close>.\<close>

definition w_demo :: world where
  "w_demo =
     \<lparr>bloom_filter = Add h_demo (NewBloomFilter (\<lambda>n (fp::nat). (8, 2)) 100 1) ''abc'',
      cache = Map.empty, cache_down = False,
      table = [\<lparr>ID = 1, ShortCode = ''abc'', OriginalURL = ''https://example.org'',
                 CreatedAt = 0, ExpiredAt = None, VisitCount = 0, Status = 1\<rparr>,
               \<lparr>ID = 2, ShortCode = ''abcd'', OriginalURL = ''https://example.com'',
                 CreatedAt = 0, ExpiredAt = None, VisitCount = 0, Status = 1\<rparr>],
      db_down = False, calls = []\<rparr>"

section \<open>The cascade stops at the filter\<close>

text \<open>
  When the filter lets the short code through, the cache is read: the access log grows.
  So the log does tell whether the stores were reached.
\<close>

lemma GetOriginalURL_present_reads_cache:
  "Test h (bloom_filter w) shortCode \<Longrightarrow>
   \<exists>rest. calls (snd (GetOriginalURL h now w shortCode)) =
      calls w @ CacheGet (ShortCodePrefix @ shortCode) # rest"
  by (auto simp: GetOriginalURL_def cache_Get_def repo_GetByShortCode_def cache_Set_def
      cache_SetWithTTL_def Let_def split: option.splits prod.splits)

lemma w_demo_abcd_absent: "\<not> Test h_demo (bloom_filter w_demo) ''abcd''"
  by (simp add: w_demo_def NewBloomFilter_def NewWithEstimates_def Add_def AddString_def
      Test_def TestString_def location_def h_demo_def upt_rec)

text \<open>
  Claim C7. For every short code on which the existence filter answers definitely-absent,
  \<open>GetOriginalURL\<close> returns not-found at once: the world after the call is the world
  before it, so the access log has not grown (no cache access, no durable-store access)
  and neither store has changed.
\<close>

theorem cascade_absent_no_access:
  "\<not> Test h (bloom_filter w) shortCode \<Longrightarrow>
   fst (GetOriginalURL h now w shortCode) = ([], Some ErrNotFound)
   \<and> calls (snd (GetOriginalURL h now w shortCode)) = calls w
   \<and> snd (GetOriginalURL h now w shortCode) = w"
  by (simp add: GetOriginalURL_def)

theorem cascade_absent_no_access_witness:
  "\<not> Test h_demo (bloom_filter w_demo) ''abcd''
   \<and> fst (GetOriginalURL h_demo 5 w_demo ''abcd'') = ([], Some ErrNotFound)
   \<and> calls (snd (GetOriginalURL h_demo 5 w_demo ''abcd'')) = []"
  using cascade_absent_no_access [of h_demo w_demo "''abcd''" 5] w_demo_abcd_absent
  by (simp add: w_demo_def)

section \<open>Rate limiter (internal/middleware/ratelimit.go)\<close>

subsection \<open>Time\<close>

text \<open>
  A \<open>time.Time\<close> is the number of nanoseconds since the Unix epoch, an \<open>int\<close> (a
  \<open>Time\<close> reaches further than 64 bits of nanoseconds). A \<open>time.Duration\<close> is an
  \<open>int64\<close> number of nanoseconds: arithmetic on durations wraps through \<open>wrap64\<close>.
  The functions of package \<open>time\<close> that the limiter calls are written out from their
  documentation: \<open>Truncate\<close> rounds down to a multiple of \<open>d\<close> since the zero time
  (1 January of year 1, \<open>unixToInternal\<close> seconds before the epoch) and returns \<open>t\<close>
  unchanged for \<open>d \<le> 0\<close>; \<open>Unix\<close> is the number of whole seconds since the epoch;
  \<open>UnixNano\<close> is the number of nanoseconds since the epoch as an \<open>int64\<close>.
\<close>

definition Second :: int where
  "Second = 10 ^ 9"

definition unixToInternal :: int where
  "unixToInternal = 62135596800"

definition Truncate :: "int \<Rightarrow> int \<Rightarrow> int" where
  "Truncate t d = (if d \<le> 0 then t else t - (t + unixToInternal * Second) mod d)"

definition Unix :: "int \<Rightarrow> int" where
  "Unix t = t div Second"

definition UnixNano :: "int \<Rightarrow> int" where
  "UnixNano t = wrap64 t"

text \<open>
  The \<open>float64\<close> arithmetic of \<open>Duration.Seconds()\<close> and of the token bucket is
  modelled on exact rationals: its rounding to 53 bits is not modelled, and neither are
  the infinities and NaN that Go produces on a division by zero (\<open>Window.Seconds()\<close>
  or the refill rate being zero): where a statement below depends on a computed token
  count, the limit and the window are not zero, and where it depends on
  \<open>Window.Seconds()\<close> the window is a whole number of seconds or a value that
  \<open>float64\<close> holds exactly. \<open>Seconds\<close> is \<open>Duration.Seconds()\<close>; \<open>trunc\<close> is the
  conversion \<open>int64(x)\<close> or \<open>int(x)\<close> of a float: the fraction is discarded.
\<close>

definition Seconds :: "int \<Rightarrow> rat" where
  "Seconds d = of_int d / of_int Second"

definition trunc :: "rat \<Rightarrow> int" where
  "trunc x = (if 0 \<le> x then \<lfloor>x\<rfloor> else \<lceil>x\<rceil>)"

text \<open>
  The conversion \<open>float64(n)\<close> of an integer is modelled with its rounding: the result
  is the nearest number with a significand of 53 bits, a tie going to the even
  significand. \<open>quantum a\<close> is the distance between neighbouring \<open>float64\<close> values at
  the magnitude \<open>a\<close>: 1 below \<open>2^53\<close>, 2 below \<open>2^54\<close>, and so on (256 for the
  nanosecond timestamps of the present, which lie between \<open>2^60\<close> and \<open>2^61\<close>). The
  result is a whole number, so it is kept as an \<open>int\<close>. The same function reads a decimal
  integer numeral as a \<open>float64\<close>, as the store does with a score.
\<close>

function quantum :: "int \<Rightarrow> int" where
  "quantum a = (if a < 2 ^ 53 then 1 else 2 * quantum (a div 2))"
  by pat_completeness auto
termination
  by (relation "measure nat") auto

declare quantum.simps [simp del]

definition float64 :: "int \<Rightarrow> int" where
  "float64 n =
     (let a = \<bar>n\<bar>; q = quantum a; d = a div q; r = a mod q;
          d = (if 2 * r < q then d else if q < 2 * r then d + 1
               else if even d then d else d + 1)
      in sgn n * (d * q))"

text \<open>Proof device: rounding to the nearest multiple of \<open>q\<close>, a tie going to the even one.\<close>

definition rne :: "int \<Rightarrow> int \<Rightarrow> int" where
  "rne q a =
     (let d = a div q; r = a mod q
      in (if 2 * r < q then d else if q < 2 * r then d + 1
          else if even d then d else d + 1) * q)"

text \<open>\<open>%d\<close> of an integer: its decimal numeral.\<close>

function dec :: "int \<Rightarrow> string" where
  "dec n = (if n < 10 then [char_of (48 + n)] else dec (n div 10) @ [char_of (48 + n mod 10)])"
  by pat_completeness auto
termination
  by (relation "measure nat") auto

declare dec.simps [simp del]

definition itoa :: "int \<Rightarrow> string" where
  "itoa i = (if i < 0 then CHR ''-'' # dec (- i) else dec i)"

subsection \<open>The shared key-value store\<close>

text \<open>
  Modelled from the spec: the shared key-value store is an external collaborator that
  ``provides atomic increment-with-expiry, atomic ordered-set
  insertion/range-removal/cardinality, and get/set of scalar values with expiry''. The
  commands below are the Redis commands the limiter sends through the client library
  (neither is among the sources).

  A key holds a value and an optional expiry time. The string values are represented by
  what they denote: \<open>RInt n\<close> is the decimal numeral of \<open>n\<close>, \<open>RDec q\<close> a fixed-point
  numeral such as \<open>4.50\<close>, \<open>RText s\<close> any string that is not a number. \<open>RZSet zs\<close> is
  an ordered set, its entries in order of insertion. An entry \<open>Z\<close> has a member and a
  score, as \<open>redis.Z\<close> has: the member is the decimal numeral of an integer (the limiter
  logs the timestamp of the request in nanoseconds), the score is a \<open>float64\<close>, here
  always a whole number. The clock of the store is the clock of the caller: a command
  issued at \<open>now\<close> sees a key as long as \<open>now\<close> is before its expiry time.
\<close>

record Z =
  Score :: int
  Member :: int

datatype rvalue = RInt int | RDec rat | RText string | RZSet "Z list"

record entry =
  val :: rvalue
  expire_at :: "int option"

type_synonym store = "string \<Rightarrow> entry option"

text \<open>
  The errors of a command: a missing key read by \<open>GET\<close> (\<open>redis.Nil\<close>), a value of the
  wrong kind, a value that is not an integer, a counter at the end of the 64-bit range,
  and the transport error of a store that cannot be reached.
\<close>

datatype redis_err = ErrNil | ErrWrongType | ErrNotInteger | ErrOverflow | ErrTransport

text \<open>
  Modelled from the spec: ``expiry''. An entry is visible at \<open>now\<close> while \<open>now\<close> is before
  its expiry time; \<open>get_entry\<close> is the visible entry under a key.
\<close>

definition live :: "int \<Rightarrow> entry \<Rightarrow> bool" where
  "live now e = (case expire_at e of None \<Rightarrow> True | Some t \<Rightarrow> now < t)"

definition get_entry :: "store \<Rightarrow> int \<Rightarrow> string \<Rightarrow> entry option" where
  "get_entry st now k =
     (case st k of None \<Rightarrow> None | Some e \<Rightarrow> if live now e then Some e else None)"

text \<open>
  Modelled from the spec: ``atomic increment'', the command \<open>INCR\<close>. A missing key
  counts from 0; an existing key keeps its expiry.
\<close>

definition redis_incr :: "int \<Rightarrow> string \<Rightarrow> store \<Rightarrow> (redis_err + int) \<times> store" where
  "redis_incr now k st =
     (case get_entry st now k of
        None \<Rightarrow> (Inr 1, st(k \<mapsto> \<lparr>val = RInt 1, expire_at = None\<rparr>))
      | Some e \<Rightarrow>
          (case val e of
             RInt n \<Rightarrow>
               if n = 2 ^ 63 - 1 then (Inl ErrOverflow, st)
               else (Inr (n + 1), st(k \<mapsto> e\<lparr>val := RInt (n + 1)\<rparr>))
           | RZSet zs \<Rightarrow> (Inl ErrWrongType, st)
           | RDec q \<Rightarrow> (Inl ErrNotInteger, st)
           | RText s \<Rightarrow> (Inl ErrNotInteger, st)))"

text \<open>
  Modelled from the spec: ``with expiry'', the command \<open>EXPIRE\<close>. It sets the time to
  live of an existing key; a time to live that is not positive deletes the key.
\<close>

definition redis_expire :: "int \<Rightarrow> string \<Rightarrow> int \<Rightarrow> store \<Rightarrow> (redis_err + bool) \<times> store" where
  "redis_expire now k ttl st =
     (case get_entry st now k of
        None \<Rightarrow> (Inr False, st)
      | Some e \<Rightarrow>
          if ttl \<le> 0 then (Inr True, st(k := None))
          else (Inr True, st(k \<mapsto> e\<lparr>expire_at := Some (now + ttl)\<rparr>)))"

text \<open>
  Modelled from the spec: ``ordered-set range-removal'', the command
  \<open>ZREMRANGEBYSCORE key lo hi\<close>. The bounds are sent as decimal integer numerals and
  read by the store as \<open>float64\<close> scores. It removes the entries with
  \<open>lo \<le> score \<le> hi\<close>; a set that becomes empty is deleted.
\<close>

definition redis_zremrangebyscore ::
  "int \<Rightarrow> string \<Rightarrow> int \<Rightarrow> int \<Rightarrow> store \<Rightarrow> (redis_err + int) \<times> store" where
  "redis_zremrangebyscore now k lo hi st =
     (case get_entry st now k of
        None \<Rightarrow> (Inr 0, st)
      | Some e \<Rightarrow>
          (case val e of
             RZSet zs \<Rightarrow>
               (let kept = filter (\<lambda>z. \<not> (float64 lo \<le> Score z \<and> Score z \<le> float64 hi)) zs
                in (Inr (int (length zs) - int (length kept)),
                    if kept = [] then st(k := None) else st(k \<mapsto> e\<lparr>val := RZSet kept\<rparr>)))
           | _ \<Rightarrow> (Inl ErrWrongType, st)))"

text \<open>
  Modelled from the spec: ``ordered-set insertion'', the command \<open>ZADD key score member\<close>.
  A member that is there already is not added again: it takes the new score.
\<close>

definition redis_zadd :: "int \<Rightarrow> string \<Rightarrow> Z \<Rightarrow> store \<Rightarrow> (redis_err + int) \<times> store" where
  "redis_zadd now k z st =
     (case get_entry st now k of
        None \<Rightarrow> (Inr 1, st(k \<mapsto> \<lparr>val = RZSet [z], expire_at = None\<rparr>))
      | Some e \<Rightarrow>
          (case val e of
             RZSet zs \<Rightarrow>
               if Member z \<in> Member ` set zs
               then (Inr 0,
                     st(k \<mapsto> e\<lparr>val := RZSet (map (\<lambda>y. if Member y = Member z then z else y)
                                                    zs)\<rparr>))
               else (Inr 1, st(k \<mapsto> e\<lparr>val := RZSet (zs @ [z])\<rparr>))
           | _ \<Rightarrow> (Inl ErrWrongType, st)))"

text \<open>Modelled from the spec: ``ordered-set cardinality'', the command \<open>ZCARD\<close>.\<close>

definition redis_zcard :: "int \<Rightarrow> string \<Rightarrow> store \<Rightarrow> (redis_err + int) \<times> store" where
  "redis_zcard now k st =
     (case get_entry st now k of
        None \<Rightarrow> (Inr 0, st)
      | Some e \<Rightarrow>
          (case val e of
             RZSet zs \<Rightarrow> (Inr (int (length zs)), st)
           | _ \<Rightarrow> (Inl ErrWrongType, st)))"

text \<open>
  Modelled from the spec: ``get of scalar values'', the command \<open>GET\<close>; \<open>redis.Nil\<close> for
  a missing key.
\<close>

definition redis_get :: "int \<Rightarrow> string \<Rightarrow> store \<Rightarrow> redis_err + rvalue" where
  "redis_get now k st =
     (case get_entry st now k of
        None \<Rightarrow> Inl ErrNil
      | Some e \<Rightarrow>
          (case val e of
             RZSet zs \<Rightarrow> Inl ErrWrongType
           | v \<Rightarrow> Inr v))"

text \<open>
  Modelled from the spec: ``set of scalar values with expiry'', the command
  \<open>SET key value\<close> with a time to live (none when the duration is not positive).
\<close>

definition redis_set :: "int \<Rightarrow> string \<Rightarrow> rvalue \<Rightarrow> int \<Rightarrow> store \<Rightarrow> store" where
  "redis_set now k v ttl st =
     st(k \<mapsto> \<lparr>val = v, expire_at = (if 0 < ttl then Some (now + ttl) else None)\<rparr>)"

subsection \<open>Configuration and construction\<close>

text \<open>
  What the middleware reads of a \<open>gin.Context\<close>, and what it does to the request: the
  response headers it sets (their integer values are rendered in decimal), the call of
  the next handler, the call of the denial handler, the abort of the chain, a log line.
\<close>

record gin_context =
  ClientIP :: string
  Path :: string

datatype event =
    EvHeader string int
  | EvNext
  | EvErrorHandler
  | EvJSON nat string
  | EvAbort
  | EvLog string

text \<open>\<open>RateLimitStrategy\<close> is a string type with three named constants.\<close>

type_synonym RateLimitStrategy = string

definition FixedWindow :: RateLimitStrategy where
  "FixedWindow = ''fixed_window''"

definition SlidingWindow :: RateLimitStrategy where
  "SlidingWindow = ''sliding_window''"

definition TokenBucket :: RateLimitStrategy where
  "TokenBucket = ''token_bucket''"

text \<open>
  The three function fields may be \<open>nil\<close> (\<open>None\<close>). A denial handler is modelled by
  the events it causes.
\<close>

record RateLimitConfig =
  Strategy :: RateLimitStrategy
  Limit :: int
  Window :: int
  KeyFunc :: "(gin_context \<Rightarrow> string) option"
  ErrorHandler :: "(gin_context \<Rightarrow> event list) option"
  SkipFunc :: "(gin_context \<Rightarrow> bool) option"

text \<open>
  The limiter holds the store client and the configuration; the store itself is passed
  to the functions below and returned by them.
\<close>

record RateLimiter =
  config :: RateLimitConfig

datatype panic = NilDereference

definition defaultErrorHandler :: "gin_context \<Rightarrow> event list" where
  "defaultErrorHandler c = [EvJSON 429 ''too_many_requests'']"

text \<open>The default key: \<open>fmt.Sprintf("rate_limit:%s:%s", c.ClientIP(), c.Request.URL.Path)\<close>.\<close>

definition IPAndPathKey :: "gin_context \<Rightarrow> string" where
  "IPAndPathKey c = ''rate_limit:'' @ ClientIP c @ '':'' @ Path c"

definition IPBasedKey :: "gin_context \<Rightarrow> string" where
  "IPBasedKey c = ''rate_limit:ip:'' @ ClientIP c"

definition PathBasedKey :: "gin_context \<Rightarrow> string" where
  "PathBasedKey c = ''rate_limit:path:'' @ Path c"

definition SkipHealthCheck :: "gin_context \<Rightarrow> bool" where
  "SkipHealthCheck c \<longleftrightarrow> Path c = ''/health'' \<or> Path c = ''/metrics''"

text \<open>
  \<open>NewRateLimiter\<close>. The configuration is passed by pointer: \<open>None\<close> is the nil pointer,
  whose first field access panics. Nothing else in the function can fail: it fills in
  the three defaults and returns the limiter.
\<close>

definition NewRateLimiter :: "RateLimitConfig option \<Rightarrow> panic + RateLimiter" where
  "NewRateLimiter cfg_ptr =
     (case cfg_ptr of
        None \<Rightarrow> Inl NilDereference
      | Some cfg \<Rightarrow>
          (let cfg = (if KeyFunc cfg = None
                      then cfg\<lparr>KeyFunc := Some IPAndPathKey\<rparr> else cfg);
               cfg = (if ErrorHandler cfg = None
                      then cfg\<lparr>ErrorHandler := Some defaultErrorHandler\<rparr> else cfg);
               cfg = (if SkipFunc cfg = None
                      then cfg\<lparr>SkipFunc := Some (\<lambda>c. False)\<rparr> else cfg)
           in Inr \<lparr>config = cfg\<rparr>))"

subsection \<open>The three checks\<close>

text \<open>
  What a check takes from its environment: \<open>t_check\<close> is the \<open>time.Now()\<close> read by the
  check, \<open>t_retry\<close> the \<open>time.Now()\<close> read by the middleware when it computes
  \<open>Retry-After\<close>; \<open>exec1_err\<close> and \<open>exec2_err\<close> say that the first and the second
  \<open>pipe.Exec\<close> of the check end with a transport error (only the token bucket has a
  second one). A pipeline that ends with a transport error is taken not to have reached
  the store. A pipeline that reaches the store runs all its commands, and \<open>Exec\<close> returns
  the error of the first command that failed.
\<close>

record env =
  t_check :: int
  t_retry :: int
  exec1_err :: bool
  exec2_err :: bool

text \<open>The result \<open>(allowed, remaining, resetTime, err)\<close> of a check; \<open>None\<close> is \<open>nil\<close>.\<close>

type_synonym check_result = "bool \<times> int \<times> int \<times> redis_err option"

text \<open>
  The integer arithmetic of the checks is Go's: the doubled window
  (a \<open>time.Duration\<close>), the reset time and the elapsed seconds (\<open>int64\<close>) and the
  remaining count (an \<open>int\<close>, taken to be 64 bits wide) wrap around.
\<close>

definition fixedWindowCheck ::
  "RateLimiter \<Rightarrow> env \<Rightarrow> string \<Rightarrow> store \<Rightarrow> check_result \<times> store" where
  "fixedWindowCheck rl env key st =
     (let now = t_check env;
          windowStart = Unix (Truncate now (Window (config rl)));
          windowKey = key @ '':'' @ itoa windowStart
      in if exec1_err env then ((False, 0, 0, Some ErrTransport), st)
         else
           (case redis_incr now windowKey st of (incrCmd, st1) \<Rightarrow>
            case redis_expire now windowKey (wrap64 (Window (config rl) * 2)) st1 of
              (expireCmd, st2) \<Rightarrow>
              (case incrCmd of
                 Inl err \<Rightarrow> ((False, 0, 0, Some err), st2)
               | Inr count \<Rightarrow>
                   (let resetTime = wrap64 (windowStart + trunc (Seconds (Window (config rl))));
                        allowed = (count \<le> Limit (config rl));
                        remaining = wrap64 (Limit (config rl) - count);
                        remaining = (if remaining < 0 then 0 else remaining)
                    in ((allowed, remaining, resetTime, None), st2)))))"

text \<open>Proof device: the first error among the replies of a pipeline.\<close>

fun first_err :: "redis_err option list \<Rightarrow> redis_err option" where
  "first_err [] = None"
| "first_err (None # es) = first_err es"
| "first_err (Some e # es) = Some e"

definition err_of :: "redis_err + 'a \<Rightarrow> redis_err option" where
  "err_of r = (case r of Inl e \<Rightarrow> Some e | Inr v \<Rightarrow> None)"

definition slidingWindowCheck ::
  "RateLimiter \<Rightarrow> env \<Rightarrow> string \<Rightarrow> store \<Rightarrow> check_result \<times> store" where
  "slidingWindowCheck rl env key st =
     (let now = t_check env;
          windowStart = UnixNano (now + wrap64 (- Window (config rl)));
          nowNano = UnixNano now
      in if exec1_err env then ((False, 0, 0, Some ErrTransport), st)
         else
           (case redis_zremrangebyscore now key 0 windowStart st of (zremCmd, st1) \<Rightarrow>
            case redis_zadd now key \<lparr>Score = float64 nowNano, Member = nowNano\<rparr> st1 of
              (zaddCmd, st2) \<Rightarrow>
            case redis_zcard now key st2 of (zcardCmd, st3) \<Rightarrow>
            case redis_expire now key (wrap64 (Window (config rl) * 2)) st3 of
              (expireCmd, st4) \<Rightarrow>
              (case first_err [err_of zremCmd, err_of zaddCmd, err_of zcardCmd, err_of expireCmd] of
                 Some err \<Rightarrow> ((False, 0, 0, Some err), st4)
               | None \<Rightarrow>
                   (let count = (case zcardCmd of Inr n \<Rightarrow> n | Inl e \<Rightarrow> 0);
                        resetTime = Unix (now + Window (config rl));
                        allowed = (count \<le> Limit (config rl));
                        remaining = wrap64 (Limit (config rl) - count);
                        remaining = (if remaining < 0 then 0 else remaining)
                    in ((allowed, remaining, resetTime, None), st4)))))"

text \<open>
  \<open>fmt.Sprintf("%.2f", tokens)\<close>: the nearest numeral with two decimals (ties to even),
  computed on the exact rational; it is exact on the whole token counts of the
  statements below.
\<close>

definition round2 :: "rat \<Rightarrow> rat" where
  "round2 x =
     (let y = x * 100; f = \<lfloor>y\<rfloor>; r = y - of_int f
      in of_int (if r < 1 / 2 then f else if 1 / 2 < r then f + 1
                 else if even f then f else f + 1) / 100)"

text \<open>
  \<open>strconv.ParseFloat\<close> and \<open>strconv.ParseInt\<close> on a stored value: \<open>None\<close> is a parse
  error.
\<close>

definition ParseFloat :: "rvalue \<Rightarrow> rat option" where
  "ParseFloat v = (case v of RInt n \<Rightarrow> Some (of_int n) | RDec q \<Rightarrow> Some q | _ \<Rightarrow> None)"

definition ParseInt :: "rvalue \<Rightarrow> int option" where
  "ParseInt v = (case v of RInt n \<Rightarrow> Some n | _ \<Rightarrow> None)"

definition tokenBucketCheck ::
  "RateLimiter \<Rightarrow> env \<Rightarrow> string \<Rightarrow> store \<Rightarrow> check_result \<times> store" where
  "tokenBucketCheck rl env key st =
     (let now = t_check env;
          tokensKey = key @ '':tokens'';
          lastRefillKey = key @ '':last_refill'';
          refillRate = of_int (Limit (config rl)) / Seconds (Window (config rl));
          getTokensCmd = (if exec1_err env then Inl ErrTransport else redis_get now tokensKey st);
          getLastRefillCmd =
            (if exec1_err env then Inl ErrTransport else redis_get now lastRefillKey st);
          tokens = (case getTokensCmd of
                      Inr v \<Rightarrow> (case ParseFloat v of Some x \<Rightarrow> x
                                 | None \<Rightarrow> of_int (Limit (config rl)))
                    | Inl e \<Rightarrow> of_int (Limit (config rl)));
          lastRefill = (case getLastRefillCmd of
                          Inr v \<Rightarrow> (case ParseInt v of Some x \<Rightarrow> x | None \<Rightarrow> Unix now)
                        | Inl e \<Rightarrow> Unix now);
          elapsed = wrap64 (Unix now - lastRefill);
          tokensToAdd = of_int elapsed * refillRate;
          tokens = tokens + tokensToAdd;
          tokens = (if of_int (Limit (config rl)) < tokens
                    then of_int (Limit (config rl)) else tokens);
          allowed = (1 \<le> tokens);
          tokens = (if allowed then tokens - 1 else tokens)
      in if exec2_err env then ((False, 0, 0, Some ErrTransport), st)
         else
           (let st1 = redis_set now tokensKey (RDec (round2 tokens))
                        (wrap64 (Window (config rl) * 2)) st;
                st2 = redis_set now lastRefillKey (RInt (Unix now))
                        (wrap64 (Window (config rl) * 2)) st1;
                resetTime = Unix now;
                resetTime = (if tokens < 1
                             then wrap64 (resetTime + trunc ((1 - tokens) / refillRate))
                             else resetTime);
                remaining = trunc tokens;
                remaining = (if remaining < 0 then 0 else remaining)
            in ((allowed, remaining, resetTime, None), st2)))"

definition checkRateLimit ::
  "RateLimiter \<Rightarrow> env \<Rightarrow> string \<Rightarrow> store \<Rightarrow> check_result \<times> store" where
  "checkRateLimit rl env key st =
     (if Strategy (config rl) = FixedWindow then fixedWindowCheck rl env key st
      else if Strategy (config rl) = SlidingWindow then slidingWindowCheck rl env key st
      else if Strategy (config rl) = TokenBucket then tokenBucketCheck rl env key st
      else fixedWindowCheck rl env key st)"

subsection \<open>The middleware\<close>

text \<open>
  The handler returned by \<open>Middleware\<close>, applied to one request: the events of the request
  and the store after it, or the panic of calling a \<open>nil\<close> function field (a limiter
  built by \<open>NewRateLimiter\<close> has none).
\<close>

definition Middleware ::
  "RateLimiter \<Rightarrow> env \<Rightarrow> gin_context \<Rightarrow> store \<Rightarrow> panic + (event list \<times> store)" where
  "Middleware rl env c st =
     (case SkipFunc (config rl) of
        None \<Rightarrow> Inl NilDereference
      | Some skip \<Rightarrow>
          if skip c then Inr ([EvNext], st)
          else
            (case KeyFunc (config rl) of
               None \<Rightarrow> Inl NilDereference
             | Some keyFunc \<Rightarrow>
                 (case checkRateLimit rl env (keyFunc c) st of
                    ((allowed, remaining, resetTime, err), st') \<Rightarrow>
                      if err \<noteq> None
                      then Inr ([EvLog ''Rate limiter error (failing open)'', EvNext], st')
                      else
                        (let headers =
                               [EvHeader ''X-RateLimit-Limit'' (Limit (config rl)),
                                EvHeader ''X-RateLimit-Remaining'' remaining,
                                EvHeader ''X-RateLimit-Reset'' resetTime]
                         in if \<not> allowed
                            then
                              (let retryAfter = wrap64 (resetTime - Unix (t_retry env));
                                   retryAfter = (if retryAfter < 0 then 0 else retryAfter)
                               in case ErrorHandler (config rl) of
                                    None \<Rightarrow> Inl NilDereference
                                  | Some errorHandler \<Rightarrow>
                                      Inr (headers @ [EvHeader ''Retry-After'' retryAfter]
                                           @ EvErrorHandler # errorHandler c @ [EvAbort], st'))
                            else Inr (headers @ [EvNext], st')))))"

text \<open>
  A series of requests through one limiter, each with its environment, the store of one
  request being the store left by the one before.
\<close>

fun serve :: "RateLimiter \<Rightarrow> (env \<times> gin_context) list \<Rightarrow> store \<Rightarrow> panic + (event list list \<times> store)" where
  "serve rl [] st = Inr ([], st)"
| "serve rl ((env, c) # reqs) st =
     (case Middleware rl env c st of
        Inl p \<Rightarrow> Inl p
      | Inr (evs, st') \<Rightarrow>
          (case serve rl reqs st' of
             Inl p \<Rightarrow> Inl p
           | Inr (evss, st'') \<Rightarrow> Inr (evs # evss, st'')))"

text \<open>The environment of a check made at time \<open>t\<close> on a store that answers every pipeline.\<close>

definition env_at :: "int \<Rightarrow> env" where
  "env_at t = \<lparr>t_check = t, t_retry = t, exec1_err = False, exec2_err = False\<rparr>"

text \<open>
  A series of checks of one identity through one limiter, at the given times, on a store
  that answers every pipeline.
\<close>

fun checks :: "RateLimiter \<Rightarrow> string \<Rightarrow> int list \<Rightarrow> store \<Rightarrow> check_result list \<times> store" where
  "checks rl key [] st = ([], st)"
| "checks rl key (t # ts) st =
     (case checkRateLimit rl (env_at t) key st of
        (r, st') \<Rightarrow>
          (case checks rl key ts st' of (rs, st'') \<Rightarrow> (r # rs, st'')))"

subsection \<open>Vocabulary of the statements\<close>

text \<open>
  The store returns a transport error during a check: one of the pipelines that the
  check runs ends with one.
\<close>

definition transport_error :: "RateLimiter \<Rightarrow> env \<Rightarrow> bool" where
  "transport_error rl env \<longleftrightarrow>
     (if Strategy (config rl) = TokenBucket then exec1_err env \<or> exec2_err env
      else exec1_err env)"

text \<open>
  The request is treated as allowed: the next handler runs, the denial handler is not
  called and the chain is not aborted.
\<close>

definition fails_open :: "event list \<Rightarrow> bool" where
  "fails_open evs \<longleftrightarrow> EvNext \<in> set evs \<and> EvErrorHandler \<notin> set evs \<and> EvAbort \<notin> set evs"

text \<open>Sample requests, environments and limiters.\<close>

definition c_demo :: gin_context where
  "c_demo = \<lparr>ClientIP = ''10.0.0.7'', Path = ''/api/v1/shorten''\<rparr>"

definition c_health :: gin_context where
  "c_health = \<lparr>ClientIP = ''10.0.0.7'', Path = ''/health''\<rparr>"

definition env_ok :: env where
  "env_ok = \<lparr>t_check = 5 * Second, t_retry = 5 * Second, exec1_err = False, exec2_err = False\<rparr>"

definition env_read_err :: env where
  "env_read_err = \<lparr>t_check = 5 * Second, t_retry = 5 * Second, exec1_err = True, exec2_err = False\<rparr>"

definition cfg_token :: RateLimitConfig where
  "cfg_token = \<lparr>Strategy = TokenBucket, Limit = 3, Window = 2 * Second,
                 KeyFunc = None, ErrorHandler = None, SkipFunc = Some SkipHealthCheck\<rparr>"

definition rl_token :: RateLimiter where
  "rl_token = \<lparr>config = cfg_token\<lparr>KeyFunc := Some IPAndPathKey,
                                       ErrorHandler := Some defaultErrorHandler\<rparr>\<rparr>"

definition cfg_token_neg :: RateLimitConfig where
  "cfg_token_neg = \<lparr>Strategy = TokenBucket, Limit = - 1, Window = 1 * Second,
                     KeyFunc = Some IPBasedKey, ErrorHandler = None, SkipFunc = None\<rparr>"

definition rl_token_neg :: RateLimiter where
  "rl_token_neg = \<lparr>config = cfg_token_neg\<lparr>ErrorHandler := Some defaultErrorHandler,
                                               SkipFunc := Some (\<lambda>c. False)\<rparr>\<rparr>"

definition cfg_zero :: RateLimitConfig where
  "cfg_zero = \<lparr>Strategy = FixedWindow, Limit = 0, Window = 0,
                KeyFunc = Some IPBasedKey, ErrorHandler = None, SkipFunc = None\<rparr>"

definition rl_zero :: RateLimiter where
  "rl_zero = \<lparr>config = cfg_zero\<lparr>ErrorHandler := Some defaultErrorHandler,
                                     SkipFunc := Some (\<lambda>c. False)\<rparr>\<rparr>"

text \<open>
  The bucket of a fixed-window check, the key of its counter, and the count that the
  store holds under a key at a time: 0 when the key is missing or expired, nothing when
  the key holds something that is not an integer.
\<close>

definition bucketStart :: "RateLimiter \<Rightarrow> int \<Rightarrow> int" where
  "bucketStart rl now = Truncate now (Window (config rl))"

definition windowKey :: "RateLimiter \<Rightarrow> string \<Rightarrow> int \<Rightarrow> string" where
  "windowKey rl key now = key @ '':'' @ itoa (Unix (bucketStart rl now))"

definition counter :: "store \<Rightarrow> int \<Rightarrow> string \<Rightarrow> int option" where
  "counter st now k =
     (case get_entry st now k of
        None \<Rightarrow> Some 0
      | Some e \<Rightarrow> (case val e of RInt n \<Rightarrow> Some n | _ \<Rightarrow> None))"

text \<open>The result of the fixed-window check that brings the counter of bucket \<open>b\<close> to \<open>n\<close>.\<close>

definition fixed_result :: "RateLimiter \<Rightarrow> int \<Rightarrow> int \<Rightarrow> check_result" where
  "fixed_result rl b n =
     (n \<le> Limit (config rl), max 0 (Limit (config rl) - n),
      Unix b + trunc (Seconds (Window (config rl))), None)"

definition cfg_fixed :: RateLimitConfig where
  "cfg_fixed = \<lparr>Strategy = FixedWindow, Limit = 2, Window = 60 * Second,
                 KeyFunc = Some IPBasedKey, ErrorHandler = None, SkipFunc = None\<rparr>"

definition rl_fixed :: RateLimiter where
  "rl_fixed = \<lparr>config = cfg_fixed\<lparr>ErrorHandler := Some defaultErrorHandler,
                                       SkipFunc := Some (\<lambda>c. False)\<rparr>\<rparr>"

definition cfg_fixed_frac :: RateLimitConfig where
  "cfg_fixed_frac = \<lparr>Strategy = FixedWindow, Limit = 5, Window = 1500000000,
                 KeyFunc = Some IPBasedKey, ErrorHandler = None, SkipFunc = None\<rparr>"

definition rl_fixed_frac :: RateLimiter where
  "rl_fixed_frac = \<lparr>config = cfg_fixed_frac\<lparr>ErrorHandler := Some defaultErrorHandler,
                                       SkipFunc := Some (\<lambda>c. False)\<rparr>\<rparr>"

text \<open>
  The timestamp log that the store holds under a key at a time: empty when the key is
  missing or expired, nothing when the key holds something that is not an ordered set.
  The timestamp of a logged entry is its member, the nanosecond at which the request was
  checked; \<open>stamp t\<close> is the entry that the limiter logs for a request at \<open>t\<close>, its
  score being \<open>float64(t)\<close>; \<open>stamped z\<close> says that \<open>z\<close> is such an entry.
  \<open>sliding_log now w zs\<close> is the log that a sliding-window check at \<open>now\<close> with
  window \<open>w\<close> makes of the log \<open>zs\<close>.
\<close>

definition log_of :: "store \<Rightarrow> int \<Rightarrow> string \<Rightarrow> Z list option" where
  "log_of st now k =
     (case get_entry st now k of
        None \<Rightarrow> Some []
      | Some e \<Rightarrow> (case val e of RZSet zs \<Rightarrow> Some zs | _ \<Rightarrow> None))"

definition stamp :: "int \<Rightarrow> Z" where
  "stamp t = \<lparr>Score = float64 t, Member = t\<rparr>"

definition stamped :: "Z \<Rightarrow> bool" where
  "stamped z \<longleftrightarrow> Score z = float64 (Member z)"

definition sliding_log :: "int \<Rightarrow> int \<Rightarrow> Z list \<Rightarrow> Z list" where
  "sliding_log now w zs =
     (let kept = filter (\<lambda>z. \<not> (0 \<le> Score z \<and> Score z \<le> float64 (now - w))) zs
      in if now \<in> Member ` set kept
         then map (\<lambda>y. if Member y = now then stamp now else y) kept
         else kept @ [stamp now])"

definition cfg_sliding :: RateLimitConfig where
  "cfg_sliding = \<lparr>Strategy = SlidingWindow, Limit = 2, Window = 60 * Second,
                   KeyFunc = Some IPBasedKey, ErrorHandler = None, SkipFunc = None\<rparr>"

definition rl_sliding :: RateLimiter where
  "rl_sliding = \<lparr>config = cfg_sliding\<lparr>ErrorHandler := Some defaultErrorHandler,
                                           SkipFunc := Some (\<lambda>c. False)\<rparr>\<rparr>"

definition st_log :: store where
  "st_log = Map.empty(''id'' \<mapsto>
       \<lparr>val = RZSet [\<lparr>Score = 30 * Second, Member = 30 * Second\<rparr>,
                     \<lparr>Score = 70 * Second, Member = 70 * Second\<rparr>],
        expire_at = Some (190 * Second)\<rparr>)"

definition st_future :: store where
  "st_future = Map.empty(''id'' \<mapsto>
       \<lparr>val = RZSet [\<lparr>Score = 105 * Second, Member = 105 * Second\<rparr>],
        expire_at = Some (225 * Second)\<rparr>)"

text \<open>
  A log of the present: one entry, logged at 1700000000.000000001 s, with its rounded
  score.
\<close>

definition st_boundary :: store where
  "st_boundary = Map.empty(''id'' \<mapsto>
       \<lparr>val = RZSet [\<lparr>Score = 1700000000000000000, Member = 1700000000000000001\<rparr>],
        expire_at = Some 1700000120000000001\<rparr>)"

text \<open>
  The quantities of a token-bucket check, as the check computes them: the token count
  and the time of the last refill that it reads (with their defaults), the refill rate,
  the token count after the refill, and the token count after the refill and the
  possible consumption of one token.
\<close>

definition stored_tokens :: "RateLimiter \<Rightarrow> env \<Rightarrow> string \<Rightarrow> store \<Rightarrow> rat" where
  "stored_tokens rl env key st =
     (case (if exec1_err env then Inl ErrTransport
            else redis_get (t_check env) (key @ '':tokens'') st) of
        Inr v \<Rightarrow> (case ParseFloat v of Some x \<Rightarrow> x | None \<Rightarrow> of_int (Limit (config rl)))
      | Inl e \<Rightarrow> of_int (Limit (config rl)))"

definition stored_refill :: "env \<Rightarrow> string \<Rightarrow> store \<Rightarrow> int" where
  "stored_refill env key st =
     (case (if exec1_err env then Inl ErrTransport
            else redis_get (t_check env) (key @ '':last_refill'') st) of
        Inr v \<Rightarrow> (case ParseInt v of Some x \<Rightarrow> x | None \<Rightarrow> Unix (t_check env))
      | Inl e \<Rightarrow> Unix (t_check env))"

definition refill_rate :: "RateLimiter \<Rightarrow> rat" where
  "refill_rate rl = of_int (Limit (config rl)) / Seconds (Window (config rl))"

definition refilled :: "RateLimiter \<Rightarrow> env \<Rightarrow> string \<Rightarrow> store \<Rightarrow> rat" where
  "refilled rl env key st =
     min (of_int (Limit (config rl)))
       (stored_tokens rl env key st
          + of_int (wrap64 (Unix (t_check env) - stored_refill env key st)) * refill_rate rl)"

definition tokens_after :: "RateLimiter \<Rightarrow> env \<Rightarrow> string \<Rightarrow> store \<Rightarrow> rat" where
  "tokens_after rl env key st =
     (if 1 \<le> refilled rl env key st then refilled rl env key st - 1 else refilled rl env key st)"

text \<open>A store that holds the two scalars of the bucket of identity \<open>id\<close>.\<close>

definition st_bucket :: "rat \<Rightarrow> store" where
  "st_bucket q =
     Map.empty(''id:tokens'' \<mapsto> \<lparr>val = RDec q, expire_at = Some (9 * Second)\<rparr>,
               ''id:last_refill'' \<mapsto> \<lparr>val = RInt 5, expire_at = Some (9 * Second)\<rparr>)"

definition st_demo :: store where
  "st_demo = Map.empty(''rate_limit:10.0.0.7:/health:0'' \<mapsto>
                         \<lparr>val = RInt 2, expire_at = Some (9 * Second)\<rparr>)"

section \<open>Construction, skipping and failing open\<close>

lemma NewRateLimiter_fields:
  "NewRateLimiter (Some cfg) = Inr rl \<Longrightarrow>
   SkipFunc (config rl) \<noteq> None \<and> KeyFunc (config rl) \<noteq> None \<and> ErrorHandler (config rl) \<noteq> None
   \<and> Limit (config rl) = Limit cfg \<and> Window (config rl) = Window cfg
   \<and> Strategy (config rl) = Strategy cfg"
  by (auto simp: NewRateLimiter_def Let_def split: if_splits)

lemma fixed_transport: "exec1_err env \<Longrightarrow> fixedWindowCheck rl env key st = ((False, 0, 0, Some ErrTransport), st)"
  by (simp add: fixedWindowCheck_def Let_def)

lemma sliding_transport: "exec1_err env \<Longrightarrow> slidingWindowCheck rl env key st = ((False, 0, 0, Some ErrTransport), st)"
  by (simp add: slidingWindowCheck_def Let_def)

lemma token_transport_write: "exec2_err env \<Longrightarrow> tokenBucketCheck rl env key st = ((False, 0, 0, Some ErrTransport), st)"
  by (simp add: tokenBucketCheck_def Let_def)

lemma token_transport_read:
  "exec1_err env \<Longrightarrow> \<not> exec2_err env \<Longrightarrow> 1 \<le> Limit (config rl) \<Longrightarrow>
   \<exists>remaining resetTime st'. tokenBucketCheck rl env key st = ((True, remaining, resetTime, None), st')"
  by (simp add: tokenBucketCheck_def Let_def)

lemma strategies_distinct:
  "FixedWindow \<noteq> TokenBucket" "SlidingWindow \<noteq> TokenBucket" "FixedWindow \<noteq> SlidingWindow"
  "TokenBucket \<noteq> FixedWindow" "TokenBucket \<noteq> SlidingWindow" "SlidingWindow \<noteq> FixedWindow"
  by (simp_all add: FixedWindow_def TokenBucket_def SlidingWindow_def)

lemma checkRateLimit_fixed:
  "Strategy (config rl) = FixedWindow \<Longrightarrow>
   checkRateLimit rl env key st = fixedWindowCheck rl env key st"
  by (simp add: checkRateLimit_def)

lemma checkRateLimit_sliding:
  "Strategy (config rl) = SlidingWindow \<Longrightarrow>
   checkRateLimit rl env key st = slidingWindowCheck rl env key st"
  by (simp add: checkRateLimit_def strategies_distinct)

lemma checkRateLimit_token:
  "Strategy (config rl) = TokenBucket \<Longrightarrow>
   checkRateLimit rl env key st = tokenBucketCheck rl env key st"
  by (simp add: checkRateLimit_def strategies_distinct)

lemma check_err_transport:
  assumes "if Strategy (config rl) = TokenBucket then exec2_err env else exec1_err env"
  shows "checkRateLimit rl env key st = ((False, 0, 0, Some ErrTransport), st)"
  using assms
  by (auto simp: checkRateLimit_def fixed_transport sliding_transport token_transport_write strategies_distinct split: if_splits)

lemma Middleware_err:
  assumes "SkipFunc (config rl) = Some skip" "KeyFunc (config rl) = Some kf" "\<not> skip c"
    "checkRateLimit rl env (kf c) st = ((a, r, t, Some e), st')"
  shows "Middleware rl env c st = Inr ([EvLog ''Rate limiter error (failing open)'', EvNext], st')"
  using assms by (simp add: Middleware_def)

lemma Middleware_allowed:
  assumes "SkipFunc (config rl) = Some skip" "KeyFunc (config rl) = Some kf" "\<not> skip c"
    "checkRateLimit rl env (kf c) st = ((True, r, t, None), st')"
  shows "Middleware rl env c st = Inr ([EvHeader ''X-RateLimit-Limit'' (Limit (config rl)),
                                EvHeader ''X-RateLimit-Remaining'' r,
                                EvHeader ''X-RateLimit-Reset'' t, EvNext], st')"
  using assms by (simp add: Middleware_def)

lemma Middleware_skip:
  "SkipFunc (config rl) = Some skip \<Longrightarrow> skip c \<Longrightarrow> Middleware rl env c st = Inr ([EvNext], st)"
  by (simp add: Middleware_def)

lemma fail_open_general:
  assumes new: "NewRateLimiter (Some cfg) = Inr rl"
    and err: "transport_error rl env"
    and tb: "Strategy (config rl) = TokenBucket \<and> \<not> exec2_err env \<longrightarrow>
             1 \<le> Limit (config rl) \<and> 0 < Window (config rl)"
  shows "\<exists>evs st'. Middleware rl env c st = Inr (evs, st') \<and> fails_open evs"
proof -
  from NewRateLimiter_fields[OF new] obtain skip kf where
    sk: "SkipFunc (config rl) = Some skip" and kf: "KeyFunc (config rl) = Some kf"
    by auto
  show ?thesis
  proof (cases "skip c")
    case True
    then show ?thesis using sk by (simp add: Middleware_skip fails_open_def)
  next
    case False
    show ?thesis
    proof (cases "if Strategy (config rl) = TokenBucket then exec2_err env else exec1_err env")
      case True
      then have "checkRateLimit rl env (kf c) st = ((False, 0, 0, Some ErrTransport), st)"
        by (rule check_err_transport)
      then have "Middleware rl env c st =
          Inr ([EvLog ''Rate limiter error (failing open)'', EvNext], st)"
        by (rule Middleware_err[OF sk kf False])
      then show ?thesis by (simp add: fails_open_def)
    next
      case F2: False
      then have tbs: "Strategy (config rl) = TokenBucket" "exec1_err env" "\<not> exec2_err env"
        using err by (auto simp: transport_error_def split: if_splits)
      then have "1 \<le> Limit (config rl)" using tb by simp
      then obtain r t st' where "tokenBucketCheck rl env (kf c) st = ((True, r, t, None), st')"
        using token_transport_read[OF tbs(2,3)] by blast
      then have "checkRateLimit rl env (kf c) st = ((True, r, t, None), st')"
        using tbs(1) by (simp add: checkRateLimit_token)
      then have "Middleware rl env c st =
          Inr ([EvHeader ''X-RateLimit-Limit'' (Limit (config rl)),
                EvHeader ''X-RateLimit-Remaining'' r,
                EvHeader ''X-RateLimit-Reset'' t, EvNext], st')"
        by (rule Middleware_allowed[OF sk kf False])
      then show ?thesis by (simp add: fails_open_def)
    qed
  qed
qed

lemma serve_skipped:
  "SkipFunc (config rl) = Some skip \<Longrightarrow> \<forall>(env, c) \<in> set reqs. skip c \<Longrightarrow>
   serve rl reqs st = Inr (map (\<lambda>r. [EvNext]) reqs, st)"
  by (induction reqs arbitrary: st) (auto simp: Middleware_skip)

lemma Seconds_Second [simp]: "Seconds (n * Second) = of_int n"
  by (simp add: Seconds_def Second_def)

lemma trunc_of_int [simp]: "trunc (of_int n) = n"
  by (simp add: trunc_def)

lemma New_token: "NewRateLimiter (Some cfg_token) = Inr rl_token"
  by (simp add: NewRateLimiter_def cfg_token_def rl_token_def)

lemma New_token_neg: "NewRateLimiter (Some cfg_token_neg) = Inr rl_token_neg"
  by (simp add: NewRateLimiter_def cfg_token_neg_def rl_token_neg_def)

lemma New_zero: "NewRateLimiter (Some cfg_zero) = Inr rl_zero"
  by (simp add: NewRateLimiter_def cfg_zero_def rl_zero_def)

text \<open>
  Claim C1, as amended. Take a limiter built by \<open>NewRateLimiter\<close> and a check during which
  the store returns a transport error, under any strategy. The request is treated as
  allowed: the middleware returns normally (no panic), the next handler is called, the
  denial handler is not called and the chain is not aborted. The one proviso concerns
  the token bucket when only its first pipeline, the read, fails: the check ignores that
  error and takes the bucket as full, so the request is allowed when the limit is at
  least 1 and the window positive.
\<close>

theorem fail_open_on_transport_error:
  "NewRateLimiter (Some cfg) = Inr rl \<Longrightarrow> transport_error rl env \<Longrightarrow>
   (Strategy (config rl) = TokenBucket \<and> \<not> exec2_err env \<longrightarrow>
      1 \<le> Limit (config rl) \<and> 0 < Window (config rl)) \<Longrightarrow>
   \<exists>evs st'. Middleware rl env c st = Inr (evs, st') \<and> fails_open evs"
  by (rule fail_open_general)

theorem fail_open_on_transport_error_witness:
  "NewRateLimiter (Some cfg_token) = Inr rl_token \<and> transport_error rl_token env_read_err
   \<and> Strategy (config rl_token) = TokenBucket \<and> \<not> exec2_err env_read_err
   \<and> 1 \<le> Limit (config rl_token) \<and> 0 < Window (config rl_token)
   \<and> (\<exists>evs st'. Middleware rl_token env_read_err c_demo Map.empty = Inr (evs, st')
         \<and> fails_open evs)"
  using fail_open_on_transport_error [of cfg_token rl_token env_read_err c_demo Map.empty]
    New_token
  by (simp add: transport_error_def rl_token_def cfg_token_def env_read_err_def Second_def)

text \<open>
  The claim as stated fails without the proviso. A token bucket with limit \<open>-1\<close> (which
  \<open>NewRateLimiter\<close> accepts) whose read pipeline ends with a transport error while its
  write pipeline succeeds: the check reports no error, the request is denied, the denial
  handler runs and the chain is aborted.
\<close>

theorem fail_open_counterexample:
  "NewRateLimiter (Some cfg_token_neg) = Inr rl_token_neg
   \<and> transport_error rl_token_neg env_read_err
   \<and> Middleware rl_token_neg env_read_err c_demo Map.empty =
       Inr ([EvHeader ''X-RateLimit-Limit'' (- 1), EvHeader ''X-RateLimit-Remaining'' 0,
             EvHeader ''X-RateLimit-Reset'' 3, EvHeader ''Retry-After'' 0,
             EvErrorHandler, EvJSON 429 ''too_many_requests'', EvAbort],
            Map.empty
              (''rate_limit:ip:10.0.0.7:tokens'' \<mapsto>
                 \<lparr>val = RDec (- 1), expire_at = Some (7 * Second)\<rparr>,
               ''rate_limit:ip:10.0.0.7:last_refill'' \<mapsto>
                 \<lparr>val = RInt 5, expire_at = Some (7 * Second)\<rparr>))"
  apply (simp add: New_token_neg)
  apply (simp add: transport_error_def rl_token_neg_def cfg_token_neg_def env_read_err_def)
  apply (simp add: Middleware_def checkRateLimit_def strategies_distinct tokenBucketCheck_def
      Let_def c_demo_def IPBasedKey_def Unix_def redis_set_def round2_def
      defaultErrorHandler_def trunc_def)
  apply (simp add: Second_def Seconds_def TokenBucket_def FixedWindow_def SlidingWindow_def)
  done

text \<open>
  Claim C8. When the skip predicate holds of every request of a series, however long,
  each request only calls the next handler, and the store after the series is the store
  before it: no check is made and no counter, timestamp log or token-bucket scalar is
  created or changed. This holds for every store and environment, also one in which the
  store is unreachable.
\<close>

theorem skip_touches_no_state:
  "SkipFunc (config rl) = Some skip \<Longrightarrow> \<forall>(env, c) \<in> set reqs. skip c \<Longrightarrow>
   serve rl reqs st = Inr (map (\<lambda>r. [EvNext]) reqs, st)"
  by (rule serve_skipped)

theorem skip_touches_no_state_witness:
  "SkipFunc (config rl_token) = Some SkipHealthCheck
   \<and> SkipHealthCheck c_health
   \<and> serve rl_token [(env_ok, c_health), (env_read_err, c_health)] st_demo =
       Inr ([[EvNext], [EvNext]], st_demo)"
  using skip_touches_no_state
    [of rl_token SkipHealthCheck "[(env_ok, c_health), (env_read_err, c_health)]" st_demo]
  by (simp add: rl_token_def cfg_token_def SkipHealthCheck_def c_health_def)

text \<open>A request that is not skipped does reach the store: the same limiter writes its two scalars.\<close>

lemma not_skipped_touches_state:
  "serve rl_token [(env_ok, c_demo)] Map.empty =
     Inr ([[EvHeader ''X-RateLimit-Limit'' 3, EvHeader ''X-RateLimit-Remaining'' 2,
            EvHeader ''X-RateLimit-Reset'' 5, EvNext]],
          Map.empty
            (''rate_limit:10.0.0.7:/api/v1/shorten:tokens'' \<mapsto>
               \<lparr>val = RDec 2, expire_at = Some (9 * Second)\<rparr>,
             ''rate_limit:10.0.0.7:/api/v1/shorten:last_refill'' \<mapsto>
               \<lparr>val = RInt 5, expire_at = Some (9 * Second)\<rparr>))"
  apply (simp add: rl_token_def cfg_token_def env_ok_def c_demo_def)
  apply (simp add: Middleware_def checkRateLimit_def strategies_distinct tokenBucketCheck_def
      Let_def IPAndPathKey_def Unix_def redis_set_def round2_def redis_get_def get_entry_def
      SkipHealthCheck_def defaultErrorHandler_def trunc_def)
  apply (simp add: Second_def Seconds_def TokenBucket_def FixedWindow_def SlidingWindow_def)
  done

text \<open>
  Claim C5, as amended. \<open>NewRateLimiter\<close> validates nothing: for every configuration,
  whatever its limit and window, it returns a limiter that carries the configuration
  unchanged but for the defaults of the key function, the denial handler and the skip
  predicate. Construction fails only on a nil configuration pointer.
\<close>

theorem NewRateLimiter_never_validates:
  "NewRateLimiter (Some cfg) =
     Inr \<lparr>config = cfg
       \<lparr>KeyFunc := Some (case KeyFunc cfg of None \<Rightarrow> IPAndPathKey | Some f \<Rightarrow> f),
        ErrorHandler :=
          Some (case ErrorHandler cfg of None \<Rightarrow> defaultErrorHandler | Some f \<Rightarrow> f),
        SkipFunc := Some (case SkipFunc cfg of None \<Rightarrow> (\<lambda>c. False) | Some f \<Rightarrow> f)\<rparr>\<rparr>"
  by (cases cfg) (auto simp: NewRateLimiter_def Let_def)

text \<open>
  The claim as stated fails: a configuration with limit 0 and window 0 is accepted, and
  the limiter built from it serves requests (it denies them).
\<close>

theorem NewRateLimiter_counterexample:
  "Limit cfg_zero = 0 \<and> Window cfg_zero = 0
   \<and> NewRateLimiter (Some cfg_zero) = Inr rl_zero
   \<and> Middleware rl_zero env_ok c_demo Map.empty =
       Inr ([EvHeader ''X-RateLimit-Limit'' 0, EvHeader ''X-RateLimit-Remaining'' 0,
             EvHeader ''X-RateLimit-Reset'' 5, EvHeader ''Retry-After'' 0,
             EvErrorHandler, EvJSON 429 ''too_many_requests'', EvAbort],
            (Map.empty(''rate_limit:ip:10.0.0.7:5'' \<mapsto> \<lparr>val = RInt 1, expire_at = None\<rparr>))
              (''rate_limit:ip:10.0.0.7:5'' := None))"
  apply (simp add: New_zero)
  apply (simp add: rl_zero_def cfg_zero_def env_ok_def)
  apply (simp add: Middleware_def checkRateLimit_def strategies_distinct fixedWindowCheck_def
      Let_def c_demo_def IPBasedKey_def Unix_def Truncate_def redis_incr_def redis_expire_def
      get_entry_def live_def defaultErrorHandler_def trunc_def itoa_def dec.simps)
  apply (simp add: Second_def Seconds_def TokenBucket_def FixedWindow_def SlidingWindow_def)
  done

section \<open>Fixed window\<close>

lemma env_at_simps [simp]:
  "t_check (env_at t) = t" "t_retry (env_at t) = t"
  "exec1_err (env_at t) = False" "exec2_err (env_at t) = False"
  by (simp_all add: env_at_def)

lemma Truncate_bounds:
  "0 < d \<Longrightarrow> Truncate t d \<le> t \<and> t < Truncate t d + d"
  by (simp add: Truncate_def)

lemma entry_update_all: "(e::entry)\<lparr>val := a, expire_at := b\<rparr> = \<lparr>val = a, expire_at = b\<rparr>"
  by (cases e) simp

lemma trunc_Seconds_nonneg:
  assumes "0 \<le> d"
  shows "trunc (Seconds d) = d div Second"
proof -
  have "0 \<le> Seconds d" using assms by (simp add: Seconds_def Second_def)
  then have "trunc (Seconds d) = \<lfloor>of_int d / of_int Second :: rat\<rfloor>"
    by (simp add: trunc_def Seconds_def)
  then show ?thesis by (simp only: floor_divide_of_int_eq)
qed

text \<open>
  No 64-bit operation of a check wraps around while the clock is between the epoch and
  the end of the \<open>int64\<close> nanoseconds (the year 2262), the window is shorter than
  \<open>2^62\<close> ns and the limit and the count are not negative.
\<close>

lemma Unix_range:
  assumes "- (2 ^ 63) \<le> t" and "t < 2 ^ 63"
  shows "- (2 ^ 34) \<le> Unix t" and "Unix t < 2 ^ 34"
proof -
  have "(- (2 ^ 63)) div Second \<le> t div Second"
    using assms(1) by (intro zdiv_mono1) (simp_all add: Second_def)
  then show "- (2 ^ 34) \<le> Unix t" by (simp add: Unix_def Second_def)
  have "t div Second \<le> (2 ^ 63 - 1) div Second"
    using assms(2) by (intro zdiv_mono1) (simp_all add: Second_def)
  then show "Unix t < 2 ^ 34" by (simp add: Unix_def Second_def)
qed

lemma doubled_window_in_range:
  "0 < w \<Longrightarrow> w < 2 ^ 62 \<Longrightarrow> wrap64 (w * 2) = w * 2"
  by (intro wrap64_id) simp_all

lemma remaining_in_range:
  "0 \<le> l \<Longrightarrow> l < 2 ^ 63 \<Longrightarrow> 0 \<le> n \<Longrightarrow> n < 2 ^ 63 \<Longrightarrow> wrap64 (l - n) = l - n"
  by (intro wrap64_id) simp_all

lemma fixed_reset_in_range:
  assumes t: "0 \<le> t" "t < 2 ^ 63" and w: "0 < w" "w < 2 ^ 62"
  shows "wrap64 (Unix (Truncate t w) + trunc (Seconds w)) = Unix (Truncate t w) + trunc (Seconds w)"
proof -
  have b: "Truncate t w \<le> t" "t < Truncate t w + w" using Truncate_bounds[OF w(1), of t] by simp_all
  have "- (2 ^ 63) \<le> Truncate t w" "Truncate t w < 2 ^ 63" using b t w by simp_all
  then have u: "- (2 ^ 34) \<le> Unix (Truncate t w)" "Unix (Truncate t w) < 2 ^ 34"
    by (rule Unix_range)+
  have "- (2 ^ 63) \<le> w" "w < 2 ^ 63" using w by simp_all
  then have "- (2 ^ 34) \<le> Unix w" "Unix w < 2 ^ 34" by (rule Unix_range)+
  moreover have "trunc (Seconds w) = Unix w" using w by (simp add: trunc_Seconds_nonneg Unix_def)
  ultimately show ?thesis using u by (intro wrap64_id) simp_all
qed

lemma fixed_check_reaches_store:
  assumes ok: "\<not> exec1_err env"
    and cnt: "counter st (t_check env) (windowKey rl key (t_check env)) = Some c"
    and c: "c < 2 ^ 63 - 1"
    and w: "0 < Window (config rl)" "Window (config rl) < 2 ^ 62"
  shows "fixedWindowCheck rl env key st =
     ((c + 1 \<le> Limit (config rl), max 0 (wrap64 (Limit (config rl) - (c + 1))),
       wrap64 (Unix (bucketStart rl (t_check env)) + trunc (Seconds (Window (config rl)))), None),
      st(windowKey rl key (t_check env) \<mapsto>
           \<lparr>val = RInt (c + 1), expire_at = Some (t_check env + Window (config rl) * 2)\<rparr>))"
proof (cases "get_entry st (t_check env) (windowKey rl key (t_check env))")
  case None
  then have c0: "c = 0" using cnt by (simp add: counter_def)
  show ?thesis using None ok w
    by (simp add: fixedWindowCheck_def Let_def redis_incr_def redis_expire_def c0
        windowKey_def bucketStart_def get_entry_def live_def max_def doubled_window_in_range)
next
  case (Some e)
  then have v: "val e = RInt c" using cnt by (simp add: counter_def split: rvalue.splits)
  have l: "live (t_check env) e" "st (windowKey rl key (t_check env)) = Some e"
    using Some by (auto simp: get_entry_def split: option.splits if_splits)
  have l': "live (t_check env) (e\<lparr>val := RInt (c + 1)\<rparr>)" using l by (simp add: live_def)
  show ?thesis using Some ok w v c l'
    by (simp add: fixedWindowCheck_def Let_def redis_incr_def redis_expire_def
        windowKey_def bucketStart_def get_entry_def max_def entry_update_all
        doubled_window_in_range)
qed

lemma fixed_check_result:
  assumes ok: "\<not> exec1_err env"
    and cnt: "counter st (t_check env) (windowKey rl key (t_check env)) = Some c"
    and c: "0 \<le> c" "c < 2 ^ 63 - 1"
    and w: "0 < Window (config rl)" "Window (config rl) < 2 ^ 62"
    and l: "0 \<le> Limit (config rl)" "Limit (config rl) < 2 ^ 63"
    and t: "0 \<le> t_check env" "t_check env < 2 ^ 63"
  shows "fixedWindowCheck rl env key st =
     (fixed_result rl (bucketStart rl (t_check env)) (c + 1),
      st(windowKey rl key (t_check env) \<mapsto>
           \<lparr>val = RInt (c + 1), expire_at = Some (t_check env + Window (config rl) * 2)\<rparr>))"
proof -
  have "wrap64 (Limit (config rl) - (c + 1)) = Limit (config rl) - (c + 1)"
    using l c by (intro remaining_in_range) simp_all
  moreover have "wrap64 (Unix (bucketStart rl (t_check env)) + trunc (Seconds (Window (config rl))))
      = Unix (bucketStart rl (t_check env)) + trunc (Seconds (Window (config rl)))"
    unfolding bucketStart_def by (rule fixed_reset_in_range[OF t w])
  ultimately show ?thesis
    by (simp add: fixed_check_reaches_store[OF ok cnt c(2) w] fixed_result_def)
qed

lemma checks_Cons:
  "checks rl key (t # ts) st =
     (fst (checkRateLimit rl (env_at t) key st) #
        fst (checks rl key ts (snd (checkRateLimit rl (env_at t) key st))),
      snd (checks rl key ts (snd (checkRateLimit rl (env_at t) key st))))"
  by (simp split: prod.splits)

lemma fixed_run_from_counter:
  assumes fx: "Strategy (config rl) = FixedWindow"
    and w: "0 < Window (config rl)" "Window (config rl) < 2 ^ 62"
    and l: "0 \<le> Limit (config rl)" "Limit (config rl) < 2 ^ 63"
    and clock: "\<forall>t\<in>set ts. 0 \<le> t \<and> t < 2 ^ 63"
    and bucket: "\<forall>t\<in>set ts. bucketStart rl t = b"
    and entry: "st (key @ '':'' @ itoa (Unix b)) = Some \<lparr>val = RInt c, expire_at = Some e\<rparr>"
    and e: "b + Window (config rl) \<le> e"
    and c0: "0 \<le> c"
    and range: "c + int (length ts) \<le> 2 ^ 63 - 1"
  shows "fst (checks rl key ts st) = map (fixed_result rl b) [c + 1..c + int (length ts)]"
  using clock bucket entry e c0 range
proof (induction ts arbitrary: st c e)
  case Nil
  then show ?case by simp
next
  case (Cons t ts)
  let ?W = "Window (config rl)"
  have bt: "bucketStart rl t = b" using Cons.prems(2) by simp
  then have tb: "b \<le> t" "t < b + ?W"
    using Truncate_bounds[OF w(1), of t] by (simp_all add: bucketStart_def)
  have wk: "windowKey rl key t = key @ '':'' @ itoa (Unix b)"
    by (simp add: windowKey_def bt)
  have cnt: "counter st (t_check (env_at t)) (windowKey rl key (t_check (env_at t))) = Some c"
    using Cons.prems(3,4) tb
    by (simp add: counter_def get_entry_def live_def env_at_def wk)
  have c: "c < 2 ^ 63 - 1" using Cons.prems(6) by simp
  have tr: "0 \<le> t_check (env_at t)" "t_check (env_at t) < 2 ^ 63" using Cons.prems(1) by simp_all
  have chk: "checkRateLimit rl (env_at t) key st =
      (fixed_result rl b (c + 1),
       st(key @ '':'' @ itoa (Unix b) \<mapsto>
            \<lparr>val = RInt (c + 1), expire_at = Some (t + ?W * 2)\<rparr>))"
    using fixed_check_result[OF _ cnt Cons.prems(5) c w l tr] bt wk
    by (simp add: checkRateLimit_fixed[OF fx])
  have IH: "fst (checks rl key ts
        (st(key @ '':'' @ itoa (Unix b) \<mapsto>
            \<lparr>val = RInt (c + 1), expire_at = Some (t + ?W * 2)\<rparr>))) =
      map (fixed_result rl b) [c + 1 + 1..c + 1 + int (length ts)]"
  proof (rule Cons.IH)
    show "\<forall>t\<in>set ts. 0 \<le> t \<and> t < 2 ^ 63" using Cons.prems(1) by simp
    show "\<forall>t\<in>set ts. bucketStart rl t = b" using Cons.prems(2) by simp
    show "(st(key @ '':'' @ itoa (Unix b) \<mapsto>
            \<lparr>val = RInt (c + 1), expire_at = Some (t + ?W * 2)\<rparr>)) (key @ '':'' @ itoa (Unix b)) =
        Some \<lparr>val = RInt (c + 1), expire_at = Some (t + ?W * 2)\<rparr>" by simp
    show "b + ?W \<le> t + ?W * 2" using tb w by simp
    show "0 \<le> c + 1" using Cons.prems(5) by simp
    show "c + 1 + int (length ts) \<le> 2 ^ 63 - 1" using Cons.prems(6) by simp
  qed
  have eq: "c + int (length (t # ts)) = c + 1 + int (length ts)" by simp
  have "[c + 1..c + 1 + int (length ts)] = (c + 1) # [c + 1 + 1..c + 1 + int (length ts)]"
    by (rule upto_rec1) simp
  then show ?case
    by (simp only: eq checks_Cons chk IH fst_conv snd_conv list.map)
qed

lemma fixed_run_fresh:
  assumes fx: "Strategy (config rl) = FixedWindow"
    and w: "0 < Window (config rl)" "Window (config rl) < 2 ^ 62"
    and l: "0 \<le> Limit (config rl)" "Limit (config rl) < 2 ^ 63"
    and clock: "\<forall>t\<in>set ts. 0 \<le> t \<and> t < 2 ^ 63"
    and bucket: "\<forall>t\<in>set ts. bucketStart rl t = b"
    and fresh: "ts \<noteq> [] \<longrightarrow> get_entry st (hd ts) (key @ '':'' @ itoa (Unix b)) = None"
    and range: "int (length ts) \<le> 2 ^ 63 - 1"
  shows "fst (checks rl key ts st) = map (fixed_result rl b) [1..int (length ts)]"
proof (cases ts)
  case Nil
  then show ?thesis by simp
next
  case (Cons t ts')
  let ?W = "Window (config rl)"
  have bt: "bucketStart rl t = b" using bucket Cons by simp
  then have tb: "b \<le> t" "t < b + ?W"
    using Truncate_bounds[OF w(1), of t] by (simp_all add: bucketStart_def)
  have wk: "windowKey rl key t = key @ '':'' @ itoa (Unix b)"
    by (simp add: windowKey_def bt)
  have cnt: "counter st (t_check (env_at t)) (windowKey rl key (t_check (env_at t))) = Some 0"
    using fresh Cons by (simp add: counter_def env_at_def wk)
  have tr: "0 \<le> t_check (env_at t)" "t_check (env_at t) < 2 ^ 63" using clock Cons by simp_all
  have chk: "checkRateLimit rl (env_at t) key st =
      (fixed_result rl b 1,
       st(key @ '':'' @ itoa (Unix b) \<mapsto>
            \<lparr>val = RInt 1, expire_at = Some (t + ?W * 2)\<rparr>))"
    using fixed_check_result[OF _ cnt _ _ w l tr] bt wk
    by (simp add: checkRateLimit_fixed[OF fx])
  have rest: "fst (checks rl key ts'
        (st(key @ '':'' @ itoa (Unix b) \<mapsto>
            \<lparr>val = RInt 1, expire_at = Some (t + ?W * 2)\<rparr>))) =
      map (fixed_result rl b) [1 + 1..1 + int (length ts')]"
  proof (rule fixed_run_from_counter[OF fx w l])
    show "\<forall>t\<in>set ts'. 0 \<le> t \<and> t < 2 ^ 63" using clock Cons by simp
    show "\<forall>t\<in>set ts'. bucketStart rl t = b" using bucket Cons by simp
    show "(st(key @ '':'' @ itoa (Unix b) \<mapsto>
            \<lparr>val = RInt 1, expire_at = Some (t + ?W * 2)\<rparr>)) (key @ '':'' @ itoa (Unix b)) =
        Some \<lparr>val = RInt 1, expire_at = Some (t + ?W * 2)\<rparr>" by simp
    show "b + ?W \<le> t + ?W * 2" using tb w by simp
    show "(0::int) \<le> 1" by simp
    show "1 + int (length ts') \<le> 2 ^ 63 - 1" using range Cons by simp
  qed
  have eq: "int (length (t # ts')) = 1 + int (length ts')" by simp
  have "[1..1 + int (length ts')] = 1 # [1 + 1..1 + int (length ts')]"
    by (rule upto_rec1) simp
  then show ?thesis
    by (simp only: Cons eq checks_Cons chk rest fst_conv snd_conv list.map)
qed

lemma map_fst_fixed_result:
  "0 \<le> L \<Longrightarrow> Limit (config rl) = L \<Longrightarrow>
   map fst (map (fixed_result rl b) [1..L + 1]) = replicate (nat L) True @ [False]"
proof -
  assume L: "0 \<le> L" "Limit (config rl) = L"
  have "[1..L + 1] = [1..L] @ [L + 1]" using L(1) by (simp add: upto_rec2)
  moreover have "map fst (map (fixed_result rl b) [1..L]) = replicate (nat L) True"
    using L by (intro replicate_eqI) (auto simp: fixed_result_def)
  ultimately show ?thesis using L by (simp add: fixed_result_def)
qed

lemma Truncate_whole_seconds:
  assumes "0 < s"
  shows "Unix (Truncate t (s * Second)) * Second = Truncate t (s * Second)"
proof -
  let ?m = "(t + unixToInternal * Second) mod (s * Second)"
  have "s * Second dvd t + unixToInternal * Second - ?m" by (rule dvd_minus_mod)
  then have "Second dvd t + unixToInternal * Second - ?m" by (rule dvd_mult_right)
  moreover have "t + unixToInternal * Second - ?m = (t - ?m) + unixToInternal * Second"
    by simp
  ultimately have "Second dvd (t - ?m) + unixToInternal * Second" by simp
  then have "Second dvd t - ?m" by (simp only: dvd_add_times_triv_right_iff)
  moreover have "Truncate t (s * Second) = t - ?m"
    using assms by (simp add: Truncate_def Second_def)
  ultimately have "Second dvd Truncate t (s * Second)" by simp
  then show ?thesis by (simp add: Unix_def)
qed

lemma replicate_two: "replicate 2 True @ [False] = [True, True, False]"
  by (simp add: numeral_2_eq_2)

lemma bucket_rl_fixed:
  "\<forall>t\<in>set [5 * Second, 6 * Second, 59 * Second]. bucketStart rl_fixed t = 0"
  by (simp add: rl_fixed_def cfg_fixed_def bucketStart_def Truncate_def unixToInternal_def
      Second_def)

text \<open>
  What the fixed-window check does when the window is a whole positive number \<open>s\<close> of
  seconds (as every window that \<open>main.go\<close> configures is), the clock is between the
  epoch and the year 2262 and the limit is not negative:

  \<^item> a check at time \<open>now\<close> that reaches the store, the counter of its bucket holding
    \<open>c\<close>: the bucket start is \<open>now\<close> truncated to the window, and it is a whole number
    of seconds; the counter under \<open>identity:bucketStart\<close> becomes \<open>c + 1\<close> and its
    expiry is set to twice the window from \<open>now\<close>; the result is
    \<open>allowed = (count \<le> limit)\<close>, \<open>remaining = max 0 (limit - count)\<close> and
    \<open>resetAt = bucketStart + window\<close> (in seconds), with \<open>count = c + 1\<close>;

  \<^item> \<open>limit + 1\<close> checks of one identity at times of one bucket, on a store that answers
    and holds no counter for the bucket yet: the first \<open>limit\<close> checks are allowed and
    the last one is denied.
\<close>

lemma fixed_window_whole_seconds:
  assumes "Strategy (config rl) = FixedWindow"
    and "Window (config rl) = s * Second" and "0 < s" and "Window (config rl) < 2 ^ 62"
    and "0 \<le> Limit (config rl)" and "Limit (config rl) < 2 ^ 63"
  shows
    "(\<not> exec1_err env \<and> counter st (t_check env) (windowKey rl key (t_check env)) = Some c
        \<and> 0 \<le> c \<and> c < 2 ^ 63 - 1 \<and> 0 \<le> t_check env \<and> t_check env < 2 ^ 63 \<longrightarrow>
      bucketStart rl (t_check env) = Truncate (t_check env) (Window (config rl))
      \<and> Unix (bucketStart rl (t_check env)) * Second = bucketStart rl (t_check env)
      \<and> snd (fixedWindowCheck rl env key st) =
          st(key @ '':'' @ itoa (Unix (bucketStart rl (t_check env))) \<mapsto>
               \<lparr>val = RInt (c + 1), expire_at = Some (t_check env + Window (config rl) * 2)\<rparr>)
      \<and> fst (fixedWindowCheck rl env key st) =
          (c + 1 \<le> Limit (config rl), max 0 (Limit (config rl) - (c + 1)),
           Unix (bucketStart rl (t_check env)) + s, None)
      \<and> (Unix (bucketStart rl (t_check env)) + s) * Second =
          bucketStart rl (t_check env) + Window (config rl))
     \<and> (Limit (config rl) < 2 ^ 63 - 1
        \<and> length ts = nat (Limit (config rl)) + 1
        \<and> (\<forall>t\<in>set ts. 0 \<le> t \<and> t < 2 ^ 63)
        \<and> (\<forall>t\<in>set ts. bucketStart rl t = b)
        \<and> get_entry st' (hd ts) (key' @ '':'' @ itoa (Unix b)) = None \<longrightarrow>
      map fst (fst (checks rl key' ts st')) = replicate (nat (Limit (config rl))) True @ [False])"
proof (intro conjI impI)
  assume h: "\<not> exec1_err env \<and> counter st (t_check env) (windowKey rl key (t_check env)) = Some c
        \<and> 0 \<le> c \<and> c < 2 ^ 63 - 1 \<and> 0 \<le> t_check env \<and> t_check env < 2 ^ 63"
  have w: "0 < Window (config rl)" using assms by (simp add: Second_def)
  have chk: "fixedWindowCheck rl env key st =
     (fixed_result rl (bucketStart rl (t_check env)) (c + 1),
      st(windowKey rl key (t_check env) \<mapsto>
           \<lparr>val = RInt (c + 1), expire_at = Some (t_check env + Window (config rl) * 2)\<rparr>))"
    using h w assms(4-6) by (intro fixed_check_result) simp_all
  show "bucketStart rl (t_check env) = Truncate (t_check env) (Window (config rl))"
    by (simp add: bucketStart_def)
  show ws: "Unix (bucketStart rl (t_check env)) * Second = bucketStart rl (t_check env)"
    using assms by (simp add: bucketStart_def Truncate_whole_seconds)
  show "snd (fixedWindowCheck rl env key st) =
          st(key @ '':'' @ itoa (Unix (bucketStart rl (t_check env))) \<mapsto>
               \<lparr>val = RInt (c + 1), expire_at = Some (t_check env + Window (config rl) * 2)\<rparr>)"
    by (simp add: chk windowKey_def)
  show "fst (fixedWindowCheck rl env key st) =
          (c + 1 \<le> Limit (config rl), max 0 (Limit (config rl) - (c + 1)),
           Unix (bucketStart rl (t_check env)) + s, None)"
    using assms(2,3) by (simp add: chk fixed_result_def)
  show "(Unix (bucketStart rl (t_check env)) + s) * Second =
          bucketStart rl (t_check env) + Window (config rl)"
    using ws assms by (simp add: algebra_simps)
next
  assume h: "Limit (config rl) < 2 ^ 63 - 1
        \<and> length ts = nat (Limit (config rl)) + 1
        \<and> (\<forall>t\<in>set ts. 0 \<le> t \<and> t < 2 ^ 63)
        \<and> (\<forall>t\<in>set ts. bucketStart rl t = b)
        \<and> get_entry st' (hd ts) (key' @ '':'' @ itoa (Unix b)) = None"
  have w: "0 < Window (config rl)" using assms by (simp add: Second_def)
  have len: "int (length ts) = Limit (config rl) + 1" using h assms(5) by simp
  have "fst (checks rl key' ts st') = map (fixed_result rl b) [1..int (length ts)]"
  proof (rule fixed_run_fresh[OF assms(1) w assms(4,5,6)])
    show "\<forall>t\<in>set ts. 0 \<le> t \<and> t < 2 ^ 63" using h by simp
    show "\<forall>t\<in>set ts. bucketStart rl t = b" using h by simp
    show "ts \<noteq> [] \<longrightarrow> get_entry st' (hd ts) (key' @ '':'' @ itoa (Unix b)) = None"
      using h by simp
    show "int (length ts) \<le> 2 ^ 63 - 1" using h len by simp
  qed
  then have "fst (checks rl key' ts st') = map (fixed_result rl b) [1..Limit (config rl) + 1]"
    by (simp only: len)
  moreover have "map fst (map (fixed_result rl b) [1..Limit (config rl) + 1]) =
      replicate (nat (Limit (config rl))) True @ [False]"
    using assms(5) by (intro map_fst_fixed_result) simp_all
  ultimately show "map fst (fst (checks rl key' ts st')) =
      replicate (nat (Limit (config rl))) True @ [False]"
    by (simp only:)
qed

text \<open>
  An instance: limit 2 and a window of 60 s; three checks in the bucket that starts at
  the epoch.
\<close>

lemma fixed_window_whole_seconds_instance:
  "fst (fixedWindowCheck rl_fixed (env_at (5 * Second)) ''id'' Map.empty) = (True, 1, 60, None)
   \<and> map fst (fst (checks rl_fixed ''id'' [5 * Second, 6 * Second, 59 * Second] Map.empty)) =
        [True, True, False]"
proof -
  have cfg: "Strategy (config rl_fixed) = FixedWindow" "Window (config rl_fixed) = 60 * Second"
    "Limit (config rl_fixed) = 2"
    by (simp_all add: rl_fixed_def cfg_fixed_def)
  have rng: "Window (config rl_fixed) < 2 ^ 62" "0 \<le> Limit (config rl_fixed)"
    "Limit (config rl_fixed) < 2 ^ 63"
    by (simp_all add: cfg Second_def)
  have b5: "bucketStart rl_fixed (5 * Second) = 0" using bucket_rl_fixed by simp
  have pre: "\<not> exec1_err (env_at (5 * Second))"
    "counter Map.empty (t_check (env_at (5 * Second)))
        (windowKey rl_fixed ''id'' (t_check (env_at (5 * Second)))) = Some 0"
    "get_entry Map.empty (hd [5 * Second, 6 * Second, 59 * Second])
        (''id'' @ '':'' @ itoa (Unix 0)) = None"
    by (simp_all add: env_at_def counter_def get_entry_def)
  have clock: "\<forall>t\<in>set [5 * Second, 6 * Second, 59 * Second]. 0 \<le> t \<and> t < 2 ^ 63"
    "0 \<le> 5 * Second" "5 * Second < 2 ^ 63"
    by (simp_all add: Second_def)
  show ?thesis
    using fixed_window_whole_seconds [where rl = rl_fixed and s = 60 and env = "env_at (5 * Second)"
      and st = Map.empty and key = "''id''" and c = 0
      and ts = "[5 * Second, 6 * Second, 59 * Second]" and b = 0
      and st' = Map.empty and key' = "''id''", OF cfg(1,2) _ rng]
      pre bucket_rl_fixed b5 clock
    by (simp add: cfg replicate_two Unix_def del: checks.simps)
qed

text \<open>
  Claim C2 fails on the code for a window that is not a whole number of seconds. Take
  limit 5 and a window of 1.5 s, on an empty store. A check at 1.7 s falls in the bucket
  that starts at 1.5 s and ends at 3 s, so \<open>bucketStart + window\<close> is second 3; the
  check returns \<open>resetAt = 2\<close>: it cuts the bucket start and the window to whole
  seconds, each on its own, before it adds them (\<open>1 + 1\<close>). A second check at 2.5 s,
  after the announced reset, still falls in the same bucket and is counted on the same
  counter (\<open>remaining\<close> goes from 4 to 3): the window has not reset at second 2. The
  comment of the check announces ``when the window resets'', and the sliding-window
  check adds first and cuts to seconds after (\<open>now.Add(Window).Unix()\<close>).
\<close>

theorem fixed_window_reset_before_bucket_end:
  "checks rl_fixed_frac ''id'' [1700000000, 2500000000] Map.empty =
     ([(True, 4, 2, None), (True, 3, 2, None)],
      Map.empty(''id:1'' \<mapsto> \<lparr>val = RInt 2, expire_at = Some 5500000000\<rparr>))
   \<and> bucketStart rl_fixed_frac 1700000000 = 1500000000
   \<and> bucketStart rl_fixed_frac 2500000000 = 1500000000
   \<and> bucketStart rl_fixed_frac 1700000000 + Window (config rl_fixed_frac) = 3 * Second
   \<and> Unix (bucketStart rl_fixed_frac 1700000000 + Window (config rl_fixed_frac)) = 3"
proof -
  have cfg: "Strategy (config rl_fixed_frac) = FixedWindow"
    "Window (config rl_fixed_frac) = 1500000000" "Limit (config rl_fixed_frac) = 5"
    by (simp_all add: rl_fixed_frac_def cfg_fixed_frac_def)
  have b: "bucketStart rl_fixed_frac 1700000000 = 1500000000"
    "bucketStart rl_fixed_frac 2500000000 = 1500000000"
    by (simp_all add: bucketStart_def cfg Truncate_def unixToInternal_def Second_def)
  have k: "windowKey rl_fixed_frac ''id'' 1700000000 = ''id:1''"
    "windowKey rl_fixed_frac ''id'' 2500000000 = ''id:1''"
    by (simp_all add: windowKey_def b Unix_def Second_def itoa_def dec.simps char_of_def)
  have s: "trunc (Seconds 1500000000) = 1"
    by (simp add: trunc_Seconds_nonneg Second_def)
  have w: "wrap64 2 = 2" "wrap64 4 = 4" "wrap64 3 = 3" by (simp_all add: wrap64_def)
  have c1: "fixedWindowCheck rl_fixed_frac (env_at 1700000000) ''id'' Map.empty =
      ((True, 4, 2, None),
       Map.empty(''id:1'' \<mapsto> \<lparr>val = RInt 1, expire_at = Some 4700000000\<rparr>))"
    using fixed_check_reaches_store[where rl = rl_fixed_frac and env = "env_at 1700000000"
        and key = "''id''" and st = Map.empty and c = 0]
    by (simp add: cfg b k s w counter_def get_entry_def Unix_def Second_def)
  have c2: "fixedWindowCheck rl_fixed_frac (env_at 2500000000) ''id''
        (Map.empty(''id:1'' \<mapsto> \<lparr>val = RInt 1, expire_at = Some 4700000000\<rparr>)) =
      ((True, 3, 2, None),
       Map.empty(''id:1'' \<mapsto> \<lparr>val = RInt 2, expire_at = Some 5500000000\<rparr>))"
    using fixed_check_reaches_store[where rl = rl_fixed_frac and env = "env_at 2500000000"
        and key = "''id''" and c = 1
        and st = "Map.empty(''id:1'' \<mapsto> \<lparr>val = RInt 1, expire_at = Some 4700000000\<rparr>)"]
    by (simp add: cfg b k s w counter_def get_entry_def live_def Unix_def Second_def)
  show ?thesis
    by (simp add: checkRateLimit_fixed[OF cfg(1)] c1 c2 b cfg Unix_def Second_def)
qed

section \<open>Sliding window\<close>

subsection \<open>The rounding of \<open>float64\<close> keeps the order\<close>

lemma quantum_pos: "0 < quantum a"
  by (induction a rule: quantum.induct) (subst quantum.simps, simp)

lemma quantum_small: "a < 2 ^ 53 \<Longrightarrow> quantum a = 1"
  by (subst quantum.simps) simp

lemma quantum_upper: "a < 2 ^ 53 * quantum a"
proof (induction a rule: quantum.induct)
  case (1 a)
  show ?case
  proof (cases "a < 2 ^ 53")
    case True
    then show ?thesis by (subst quantum.simps) simp
  next
    case False
    then have "a div 2 < 2 ^ 53 * quantum (a div 2)" using 1 by simp
    then have "a < 2 ^ 53 * (2 * quantum (a div 2))" by linarith
    then show ?thesis using False by (subst quantum.simps) simp
  qed
qed

lemma quantum_lower: "2 ^ 53 \<le> a \<Longrightarrow> 2 ^ 52 * quantum a \<le> a"
proof (induction a rule: quantum.induct)
  case (1 a)
  then have big: "\<not> a < 2 ^ 53" by simp
  show ?case
  proof (cases "a div 2 < 2 ^ 53")
    case True
    then have "quantum (a div 2) = 1" by (rule quantum_small)
    then have "quantum a = 2" using big by (subst quantum.simps) simp
    then show ?thesis using 1(2) by simp
  next
    case False
    then have "2 ^ 52 * quantum (a div 2) \<le> a div 2" using 1(1) big by simp
    then have "2 ^ 52 * (2 * quantum (a div 2)) \<le> a" by linarith
    then show ?thesis using big by (subst quantum.simps) simp
  qed
qed

lemma quantum_dvd: "a \<le> b \<Longrightarrow> quantum a dvd quantum b"
proof (induction b arbitrary: a rule: quantum.induct)
  case (1 b)
  show ?case
  proof (cases "a < 2 ^ 53")
    case True
    then show ?thesis by (simp add: quantum_small)
  next
    case False
    then have bb: "\<not> b < 2 ^ 53" using 1(2) by simp
    have "a div 2 \<le> b div 2" using 1(2) by (simp add: zdiv_mono1)
    then have "quantum (a div 2) dvd quantum (b div 2)" using 1(1) bb by simp
    then have "2 * quantum (a div 2) dvd 2 * quantum (b div 2)" by simp
    then show ?thesis using False bb
      by (subst quantum.simps, subst (2) quantum.simps) simp
  qed
qed

lemma quantum_binade: "2 ^ 52 * 2 ^ k \<le> a \<Longrightarrow> a < 2 ^ 53 * 2 ^ k \<Longrightarrow> quantum a = 2 ^ k"
proof (induction k arbitrary: a)
  case 0
  then show ?case by (simp add: quantum_small)
next
  case (Suc k)
  have "(1::int) \<le> 2 ^ k" by simp
  then have "(2::int) ^ 53 \<le> 2 ^ 52 * 2 ^ Suc k" by simp
  then have big: "\<not> a < 2 ^ 53" using Suc.prems(1) by linarith
  have "2 ^ 52 * 2 ^ k \<le> a div 2" "a div 2 < 2 ^ 53 * 2 ^ k" using Suc.prems by simp_all
  then have "quantum (a div 2) = 2 ^ k" by (rule Suc.IH)
  then show ?case using big by (subst quantum.simps) simp
qed

lemma float64_rne: "0 \<le> n \<Longrightarrow> float64 n = rne (quantum n) n"
  using quantum_pos[of 0] by (cases "n = 0") (simp_all add: float64_def rne_def Let_def)

lemma rne_bounds:
  assumes "0 < q"
  shows "a div q * q \<le> rne q a" "rne q a \<le> (a div q + 1) * q"
  using assms by (simp_all add: rne_def Let_def)

lemma rne_above_multiple:
  assumes q: "0 < q" and le: "k * q \<le> a"
  shows "k * q \<le> rne q a"
proof -
  have "(k * q) div q \<le> a div q" by (rule zdiv_mono1[OF le q])
  then have "k \<le> a div q" using q by simp
  then have "k * q \<le> a div q * q" using q by simp
  then show ?thesis using rne_bounds(1)[OF q, of a] by linarith
qed

lemma rne_below_multiple:
  assumes q: "0 < q" and le: "a \<le> k * q"
  shows "rne q a \<le> k * q"
proof (cases "a = k * q")
  case True
  then show ?thesis using q by (simp add: rne_def Let_def)
next
  case False
  then have "a < k * q" using le by simp
  moreover have "a div q * q + a mod q = a" by simp
  moreover have "0 \<le> a mod q" using q by simp
  ultimately have "a div q * q < k * q" by linarith
  then have "a div q < k" using q by (simp add: mult_less_cancel_right)
  then have "(a div q + 1) * q \<le> k * q" using q by simp
  then show ?thesis using rne_bounds(2)[OF q, of a] by linarith
qed

lemma rne_mono:
  assumes q: "0 < q" and le: "a \<le> b"
  shows "rne q a \<le> rne q b"
proof (cases "a div q = b div q")
  case True
  have "a mod q \<le> b mod q"
    using le True by (metis add_le_cancel_left mult_div_mod_eq)
  then show ?thesis using q True by (auto simp: rne_def Let_def)
next
  case False
  have "a div q \<le> b div q" by (rule zdiv_mono1[OF le q])
  then have "a div q + 1 \<le> b div q" using False by simp
  then have "(a div q + 1) * q \<le> b div q * q" using q by simp
  then show ?thesis using rne_bounds(2)[OF q, of a] rne_bounds(1)[OF q, of b] by linarith
qed

lemma float64_mono_nonneg:
  assumes a: "0 \<le> a" and le: "a \<le> b"
  shows "float64 a \<le> float64 b"
proof -
  have b: "0 \<le> b" using a le by simp
  have d: "quantum a dvd quantum b" by (rule quantum_dvd[OF le])
  show ?thesis
  proof (cases "quantum a = quantum b")
    case True
    then show ?thesis using rne_mono[OF quantum_pos le, of b] a b by (simp add: float64_rne)
  next
    case False
    obtain k where k: "quantum b = quantum a * k" using d by (auto simp: dvd_def)
    have kpos: "0 < k" using quantum_pos[of a] quantum_pos[of b] k
      by (simp add: zero_less_mult_iff)
    have "k \<noteq> 1" using False k by auto
    then have k2: "2 \<le> k" using kpos by simp
    have two: "2 * quantum a \<le> quantum b"
      using k2 quantum_pos[of a] by (simp add: k)
    have "\<not> b < 2 ^ 53"
    proof
      assume "b < 2 ^ 53"
      then have "quantum b = 1" "quantum a = 1" using le by (simp_all add: quantum_small)
      then show False using False by simp
    qed
    then have lo: "2 ^ 52 * quantum b \<le> b" by (intro quantum_lower) simp
    have up: "a \<le> 2 ^ 53 * quantum a" using quantum_upper[of a] by simp
    have "rne (quantum a) a \<le> 2 ^ 53 * quantum a" by (rule rne_below_multiple[OF quantum_pos up])
    moreover have "2 ^ 52 * quantum b \<le> rne (quantum b) b"
      by (rule rne_above_multiple[OF quantum_pos lo])
    moreover have "(2::int) ^ 53 * quantum a \<le> 2 ^ 52 * quantum b" using two by simp
    ultimately show ?thesis using a b by (simp add: float64_rne)
  qed
qed

lemma float64_nonneg: "0 \<le> n \<Longrightarrow> 0 \<le> float64 n"
  using quantum_pos[of n] by (simp add: float64_rne rne_def Let_def pos_imp_zdiv_nonneg_iff)

lemma float64_exact: "\<bar>n\<bar> < 2 ^ 53 \<Longrightarrow> float64 n = n"
  by (simp add: float64_def Let_def quantum_small sgn_mult_abs)

lemma float64_zero [simp]: "float64 0 = 0"
  by (simp add: float64_exact)

subsection \<open>The check\<close>

lemma stamped_stamp [simp]: "stamped (stamp t)" "Member (stamp t) = t" "Score (stamp t) = float64 t"
  by (simp_all add: stamped_def stamp_def)

lemma stamped_eq: "stamped z \<Longrightarrow> Member z = t \<Longrightarrow> z = stamp t"
  by (cases z) (simp add: stamped_def stamp_def)

lemma sliding_check_reaches_store:
  assumes ok: "\<not> exec1_err env"
    and lg: "log_of st (t_check env) key = Some zs"
    and w: "0 < Window (config rl)" "Window (config rl) < 2 ^ 62"
    and t: "0 \<le> t_check env" "t_check env < 2 ^ 63"
  shows "slidingWindowCheck rl env key st =
     ((int (length (sliding_log (t_check env) (Window (config rl)) zs)) \<le> Limit (config rl),
       max 0 (wrap64 (Limit (config rl)
                - int (length (sliding_log (t_check env) (Window (config rl)) zs)))),
       Unix (t_check env + Window (config rl)), None),
      st(key \<mapsto> \<lparr>val = RZSet (sliding_log (t_check env) (Window (config rl)) zs),
                  expire_at = Some (t_check env + Window (config rl) * 2)\<rparr>))"
proof -
  let ?now = "t_check env" and ?W = "Window (config rl)"
  have nw: "wrap64 (- ?W) = - ?W" using w by (intro wrap64_id) simp_all
  have un: "UnixNano ?now = ?now" "UnixNano (?now - ?W) = ?now - ?W"
    using w t by (simp_all add: UnixNano_def wrap64_id)
  have dw: "wrap64 (?W * 2) = ?W * 2" "0 < ?W * 2" using w by (simp_all add: doubled_window_in_range)
  let ?kept = "filter (\<lambda>z. \<not> (0 \<le> Score z \<and> Score z \<le> float64 (?now - ?W))) zs"
  show ?thesis
  proof (cases "get_entry st ?now key")
    case None
    then have zs: "zs = []" using lg by (simp add: log_of_def)
    show ?thesis using None ok dw
      by (simp add: slidingWindowCheck_def Let_def redis_zremrangebyscore_def redis_zadd_def
          redis_zcard_def redis_expire_def get_entry_def live_def err_of_def nw un
          sliding_log_def zs max_def stamp_def)
  next
    case (Some e)
    then have v: "val e = RZSet zs" using lg by (simp add: log_of_def split: rvalue.splits)
    have l: "live ?now e" "st key = Some e"
      using Some by (auto simp: get_entry_def split: option.splits if_splits)
    have l': "live ?now (e\<lparr>val := x\<rparr>)" for x using l by (simp add: live_def)
    show ?thesis
    proof (cases "?kept = []")
      case True
      then show ?thesis using Some ok dw v l
        by (simp add: slidingWindowCheck_def Let_def redis_zremrangebyscore_def redis_zadd_def
            redis_zcard_def redis_expire_def get_entry_def live_def err_of_def nw un
            sliding_log_def max_def stamp_def)
    next
      case False
      then show ?thesis using Some ok dw v l l'
        by (simp add: slidingWindowCheck_def Let_def redis_zremrangebyscore_def redis_zadd_def
            redis_zcard_def redis_expire_def get_entry_def err_of_def nw un
            sliding_log_def max_def entry_update_all stamp_def cong: if_cong)
    qed
  qed
qed

lemma sliding_log_length: "length (sliding_log now w zs) \<le> length zs + 1"
proof -
  have "length (filter P zs) \<le> length zs" for P by simp
  then show ?thesis by (simp add: sliding_log_def Let_def le_SucI)
qed

lemma sliding_log_now: "stamp now \<in> set (sliding_log now w zs)"
  by (auto simp: sliding_log_def Let_def)

lemma sliding_log_subset: "set (sliding_log now w zs) \<subseteq> insert (stamp now) (set zs)"
  by (auto simp: sliding_log_def Let_def split: if_splits)

lemma sliding_log_stamped:
  "\<forall>z\<in>set zs. stamped z \<Longrightarrow> z \<in> set (sliding_log now w zs) \<Longrightarrow> stamped z"
  using sliding_log_subset[of now w zs] by auto

lemma sliding_log_scores:
  "z \<in> set (sliding_log now w zs) \<Longrightarrow>
   z = stamp now \<or> (z \<in> set zs \<and> \<not> (0 \<le> Score z \<and> Score z \<le> float64 (now - w)))"
  by (auto simp: sliding_log_def Let_def split: if_splits)

lemma sliding_log_kept:
  assumes "z \<in> set zs" and "stamped z"
    and "\<not> (0 \<le> Score z \<and> Score z \<le> float64 (now - w))"
  shows "z \<in> set (sliding_log now w zs)"
proof (cases "Member z = now")
  case True
  then have "z = stamp now" using assms(2) by (rule stamped_eq[rotated])
  then show ?thesis by (simp add: sliding_log_now)
next
  case False
  then show ?thesis using assms(1,3) by (auto simp: sliding_log_def Let_def image_iff)
qed

lemma sliding_log_purged:
  assumes "z \<in> set zs" and "stamped z" and "0 \<le> Member z" and "Member z \<le> now - w" and "0 < w"
  shows "z \<notin> set (sliding_log now w zs)"
proof
  assume "z \<in> set (sliding_log now w zs)"
  then consider "z = stamp now" | "\<not> (0 \<le> Score z \<and> Score z \<le> float64 (now - w))"
    using sliding_log_scores by blast
  then show False
  proof cases
    case 1
    then have "Member z = now" by simp
    then show False using assms(4,5) by simp
  next
    case 2
    have "0 \<le> Score z" using assms(2,3) by (simp add: stamped_def float64_nonneg)
    moreover have "Score z \<le> float64 (now - w)"
      using assms(2,3,4) by (simp add: stamped_def float64_mono_nonneg)
    ultimately show False using 2 by simp
  qed
qed

lemma sliding_log_lower:
  assumes "z \<in> set (sliding_log now w zs)" and "\<forall>z\<in>set zs. stamped z"
    and "0 \<le> Member z" and "0 < w"
  shows "now - w < Member z"
proof (rule ccontr)
  assume n: "\<not> now - w < Member z"
  then have "Member z \<noteq> now" using assms(4) by simp
  then have "z \<noteq> stamp now" by auto
  then have z: "z \<in> set zs" using sliding_log_subset[of now w zs] assms(1) by auto
  then have "stamped z" using assms(2) by simp
  then have "z \<notin> set (sliding_log now w zs)"
    using z assms(3,4) n by (intro sliding_log_purged) simp_all
  then show False using assms(1) by simp
qed

text \<open>
  Claim C3, as amended. Take a sliding-window check at time \<open>now\<close> that reaches the
  store, with a positive window shorter than \<open>2^62\<close> ns, a limit that is not negative
  and a clock between the epoch and the year 2262; the log \<open>zs\<close> of the identity holds
  entries logged by the limiter (the score of an entry is the \<open>float64\<close> of its
  timestamp). For the log \<open>zs'\<close> after the check:

  \<^item> every entry of \<open>zs\<close> with a timestamp in \<open>[0, now - window]\<close>, so every
    non-negative timestamp earlier than \<open>now - window\<close>, is purged; every entry whose
    score is above the score of \<open>now - window\<close> (or negative) is kept; an entry for
    \<open>now\<close> is inserted, nothing else;
  \<^item> the result is \<open>allowed = (cardinality \<le> limit)\<close>,
    \<open>remaining = max 0 (limit - cardinality)\<close>, \<open>resetAt = now + window\<close> (in Unix
    seconds), the cardinality being that of \<open>zs'\<close>, read after the purge;
  \<^item> every retained entry with a non-negative timestamp is later than \<open>now - window\<close>;
    and when no entry of \<open>zs\<close> is later than \<open>now\<close> or negative, every retained entry
    lies within \<open>[now - window, now]\<close>;
  \<^item> the entries of \<open>zs'\<close> are again entries logged by the limiter.
\<close>

theorem sliding_window_check:
  assumes "0 < Window (config rl)" and "Window (config rl) < 2 ^ 62"
    and "0 \<le> t_check env" and "t_check env < 2 ^ 63"
    and "0 \<le> Limit (config rl)" and "Limit (config rl) < 2 ^ 63"
    and "\<not> exec1_err env"
    and "log_of st (t_check env) key = Some zs"
    and "\<forall>z\<in>set zs. stamped z"
    and "int (length zs) < 2 ^ 63 - 1"
  shows "\<exists>zs'.
      log_of (snd (slidingWindowCheck rl env key st)) (t_check env) key = Some zs'
      \<and> (\<forall>z\<in>set zs. 0 \<le> Member z \<and> Member z \<le> t_check env - Window (config rl)
            \<longrightarrow> z \<notin> set zs')
      \<and> (\<forall>z\<in>set zs. Score z < 0 \<or> float64 (t_check env - Window (config rl)) < Score z
            \<longrightarrow> z \<in> set zs')
      \<and> stamp (t_check env) \<in> set zs'
      \<and> set zs' \<subseteq> insert (stamp (t_check env)) (set zs)
      \<and> fst (slidingWindowCheck rl env key st) =
          (int (length zs') \<le> Limit (config rl),
           max 0 (Limit (config rl) - int (length zs')),
           Unix (t_check env + Window (config rl)), None)
      \<and> (\<forall>z\<in>set zs'. 0 \<le> Member z \<longrightarrow> t_check env - Window (config rl) < Member z)
      \<and> ((\<forall>z\<in>set zs. 0 \<le> Member z \<and> Member z \<le> t_check env) \<longrightarrow>
           (\<forall>z\<in>set zs'. t_check env - Window (config rl) \<le> Member z \<and> Member z \<le> t_check env))
      \<and> (\<forall>z\<in>set zs'. stamped z)"
proof -
  let ?now = "t_check env" and ?W = "Window (config rl)"
  let ?log = "sliding_log ?now ?W zs"
  note chk = sliding_check_reaches_store[OF assms(7,8,1,2,3,4)]
  have "int (length ?log) \<le> int (length zs) + 1"
    using sliding_log_length[of ?now ?W zs] by simp
  then have len: "int (length ?log) < 2 ^ 63" using assms(10) by simp
  have rem: "wrap64 (Limit (config rl) - int (length ?log)) = Limit (config rl) - int (length ?log)"
    using assms(5,6) len by (intro remaining_in_range) simp_all
  have low: "?now - ?W < Member z" if "z \<in> set ?log" "0 \<le> Member z" for z
    using that assms(1,9) by (intro sliding_log_lower[of z ?now ?W zs]) simp_all
  have up: "Member z \<le> ?now" if "z \<in> set ?log" "\<forall>z\<in>set zs. 0 \<le> Member z \<and> Member z \<le> ?now" for z
    using that sliding_log_subset[of ?now ?W zs] by auto
  have nn: "0 \<le> Member z" if "z \<in> set ?log" "\<forall>z\<in>set zs. 0 \<le> Member z \<and> Member z \<le> ?now" for z
    using that sliding_log_subset[of ?now ?W zs] assms(3) by auto
  show ?thesis
  proof (intro exI[where x = ?log] conjI)
    show "log_of (snd (slidingWindowCheck rl env key st)) ?now key = Some ?log"
      using assms(1) by (simp add: chk log_of_def get_entry_def live_def)
    show "\<forall>z\<in>set zs. 0 \<le> Member z \<and> Member z \<le> ?now - ?W \<longrightarrow> z \<notin> set ?log"
      using assms(1,9) sliding_log_purged[of _ zs ?now ?W] by blast
    show "\<forall>z\<in>set zs. Score z < 0 \<or> float64 (?now - ?W) < Score z \<longrightarrow> z \<in> set ?log"
      using assms(9) sliding_log_kept[of _ zs ?now ?W] by fastforce
    show "stamp ?now \<in> set ?log" by (rule sliding_log_now)
    show "set ?log \<subseteq> insert (stamp ?now) (set zs)" by (rule sliding_log_subset)
    show "fst (slidingWindowCheck rl env key st) =
          (int (length ?log) \<le> Limit (config rl),
           max 0 (Limit (config rl) - int (length ?log)),
           Unix (?now + ?W), None)"
      by (simp add: chk rem)
    show "\<forall>z\<in>set ?log. 0 \<le> Member z \<longrightarrow> ?now - ?W < Member z"
      using low by blast
    show "(\<forall>z\<in>set zs. 0 \<le> Member z \<and> Member z \<le> ?now) \<longrightarrow>
           (\<forall>z\<in>set ?log. ?now - ?W \<le> Member z \<and> Member z \<le> ?now)"
      using low up nn by (meson less_imp_le)
    show "\<forall>z\<in>set ?log. stamped z"
      using assms(9) sliding_log_stamped[of zs _ ?now ?W] by blast
  qed
qed

lemma float64_seconds [simp]:
  "float64 (30 * Second) = 30 * Second" "float64 (40 * Second) = 40 * Second"
  "float64 (70 * Second) = 70 * Second" "float64 (100 * Second) = 100 * Second"
  "float64 (105 * Second) = 105 * Second"
  by (simp_all add: float64_exact Second_def)

lemma sliding_demo:
  "slidingWindowCheck rl_sliding (env_at (100 * Second)) ''id'' st_log =
     ((True, 0, 160, None),
      st_log(''id'' \<mapsto>
        \<lparr>val = RZSet [\<lparr>Score = 70 * Second, Member = 70 * Second\<rparr>,
                      \<lparr>Score = 100 * Second, Member = 100 * Second\<rparr>],
         expire_at = Some (220 * Second)\<rparr>))"
proof -
  have lg: "log_of st_log (t_check (env_at (100 * Second))) ''id'' =
      Some [\<lparr>Score = 30 * Second, Member = 30 * Second\<rparr>,
            \<lparr>Score = 70 * Second, Member = 70 * Second\<rparr>]"
    by (simp add: log_of_def st_log_def get_entry_def live_def Second_def)
  have cfg: "Window (config rl_sliding) = 60 * Second" "Limit (config rl_sliding) = 2"
    by (simp_all add: rl_sliding_def cfg_sliding_def)
  have sl: "sliding_log (100 * Second) (60 * Second)
        [\<lparr>Score = 30 * Second, Member = 30 * Second\<rparr>,
         \<lparr>Score = 70 * Second, Member = 70 * Second\<rparr>] =
      [\<lparr>Score = 70 * Second, Member = 70 * Second\<rparr>,
       \<lparr>Score = 100 * Second, Member = 100 * Second\<rparr>]"
  proof -
    have "100 * Second - 60 * Second = 40 * Second" by simp
    then show ?thesis
      by (simp add: sliding_log_def Let_def stamp_def) (simp add: Second_def)
  qed
  have "slidingWindowCheck rl_sliding (env_at (100 * Second)) ''id'' st_log =
     ((int (length (sliding_log (t_check (env_at (100 * Second))) (Window (config rl_sliding))
          [\<lparr>Score = 30 * Second, Member = 30 * Second\<rparr>,
           \<lparr>Score = 70 * Second, Member = 70 * Second\<rparr>])) \<le> Limit (config rl_sliding),
       max 0 (wrap64 (Limit (config rl_sliding)
                - int (length (sliding_log (t_check (env_at (100 * Second)))
                    (Window (config rl_sliding))
          [\<lparr>Score = 30 * Second, Member = 30 * Second\<rparr>,
           \<lparr>Score = 70 * Second, Member = 70 * Second\<rparr>])))),
       Unix (t_check (env_at (100 * Second)) + Window (config rl_sliding)), None),
      st_log(''id'' \<mapsto> \<lparr>val = RZSet (sliding_log (t_check (env_at (100 * Second)))
            (Window (config rl_sliding))
          [\<lparr>Score = 30 * Second, Member = 30 * Second\<rparr>,
           \<lparr>Score = 70 * Second, Member = 70 * Second\<rparr>]),
                  expire_at = Some (t_check (env_at (100 * Second)) + Window (config rl_sliding) * 2)\<rparr>))"
    by (rule sliding_check_reaches_store[OF _ lg]) (simp_all add: cfg Second_def)
  then show ?thesis
    by (simp add: cfg sl) (simp add: Unix_def Second_def)
qed

theorem sliding_window_check_witness:
  "0 < Window (config rl_sliding) \<and> Window (config rl_sliding) < 2 ^ 62
   \<and> 0 \<le> t_check (env_at (100 * Second)) \<and> t_check (env_at (100 * Second)) < 2 ^ 63
   \<and> 0 \<le> Limit (config rl_sliding) \<and> Limit (config rl_sliding) < 2 ^ 63
   \<and> \<not> exec1_err (env_at (100 * Second))
   \<and> log_of st_log (t_check (env_at (100 * Second))) ''id'' =
        Some [stamp (30 * Second), stamp (70 * Second)]
   \<and> stamped (stamp (30 * Second)) \<and> stamped (stamp (70 * Second))
   \<and> int (length [stamp (30 * Second), stamp (70 * Second)]) < 2 ^ 63 - 1
   \<and> 0 \<le> 30 * Second \<and> 30 * Second \<le> t_check (env_at (100 * Second))
   \<and> 0 \<le> 70 * Second \<and> 70 * Second \<le> t_check (env_at (100 * Second))
   \<and> (\<exists>zs'.
        log_of (snd (slidingWindowCheck rl_sliding (env_at (100 * Second)) ''id'' st_log))
          (100 * Second) ''id'' = Some zs'
        \<and> stamp (30 * Second) \<notin> set zs' \<and> stamp (70 * Second) \<in> set zs'
        \<and> stamp (100 * Second) \<in> set zs'
        \<and> fst (slidingWindowCheck rl_sliding (env_at (100 * Second)) ''id'' st_log) =
            (int (length zs') \<le> 2, max 0 (2 - int (length zs')), 160, None)
        \<and> (\<forall>z\<in>set zs'. 40 * Second \<le> Member z \<and> Member z \<le> 100 * Second))"
proof -
  have cfg: "Window (config rl_sliding) = 60 * Second" "Limit (config rl_sliding) = 2"
    by (simp_all add: rl_sliding_def cfg_sliding_def)
  have pre: "0 < Window (config rl_sliding)" "Window (config rl_sliding) < 2 ^ 62"
    "0 \<le> t_check (env_at (100 * Second))" "t_check (env_at (100 * Second)) < 2 ^ 63"
    "0 \<le> Limit (config rl_sliding)" "Limit (config rl_sliding) < 2 ^ 63"
    "\<not> exec1_err (env_at (100 * Second))"
    "log_of st_log (t_check (env_at (100 * Second))) ''id'' =
        Some [stamp (30 * Second), stamp (70 * Second)]"
    "\<forall>z\<in>set [stamp (30 * Second), stamp (70 * Second)]. stamped z"
    "int (length [stamp (30 * Second), stamp (70 * Second)]) < 2 ^ 63 - 1"
    by (simp_all add: cfg log_of_def st_log_def get_entry_def live_def stamp_def stamped_def
        Second_def float64_exact)
  have d: "stamp (30 * Second) \<noteq> stamp (100 * Second)" "stamp (70 * Second) \<noteq> stamp (100 * Second)"
    by (simp_all add: stamp_def Second_def)
  from sliding_window_check [OF pre] obtain zs' where L:
      "log_of (snd (slidingWindowCheck rl_sliding (env_at (100 * Second)) ''id'' st_log))
          (t_check (env_at (100 * Second))) ''id'' = Some zs'"
      "\<forall>z\<in>set [stamp (30 * Second), stamp (70 * Second)].
          0 \<le> Member z \<and> Member z \<le> t_check (env_at (100 * Second)) - Window (config rl_sliding)
            \<longrightarrow> z \<notin> set zs'"
      "\<forall>z\<in>set [stamp (30 * Second), stamp (70 * Second)].
          Score z < 0 \<or> float64 (t_check (env_at (100 * Second)) - Window (config rl_sliding)) < Score z
            \<longrightarrow> z \<in> set zs'"
      "stamp (t_check (env_at (100 * Second))) \<in> set zs'"
      "fst (slidingWindowCheck rl_sliding (env_at (100 * Second)) ''id'' st_log) =
          (int (length zs') \<le> Limit (config rl_sliding),
           max 0 (Limit (config rl_sliding) - int (length zs')),
           Unix (t_check (env_at (100 * Second)) + Window (config rl_sliding)), None)"
      "(\<forall>z\<in>set [stamp (30 * Second), stamp (70 * Second)].
           0 \<le> Member z \<and> Member z \<le> t_check (env_at (100 * Second))) \<longrightarrow>
           (\<forall>z\<in>set zs'. t_check (env_at (100 * Second)) - Window (config rl_sliding) \<le> Member z
              \<and> Member z \<le> t_check (env_at (100 * Second)))"
    by blast
  have w40: "100 * Second - 60 * Second = 40 * Second" by simp
  have "log_of (snd (slidingWindowCheck rl_sliding (env_at (100 * Second)) ''id'' st_log))
          (100 * Second) ''id'' = Some zs'"
    using L(1) by simp
  moreover have "stamp (30 * Second) \<notin> set zs'" using L(2) by (simp add: cfg Second_def)
  moreover have "stamp (70 * Second) \<in> set zs'" using L(3) by (simp add: cfg w40) (simp add: Second_def)
  moreover have "stamp (100 * Second) \<in> set zs'" using L(4) by simp
  moreover have "fst (slidingWindowCheck rl_sliding (env_at (100 * Second)) ''id'' st_log) =
            (int (length zs') \<le> 2, max 0 (2 - int (length zs')), 160, None)"
    using L(5) by (simp add: cfg Unix_def Second_def)
  moreover have "\<forall>z\<in>set zs'. 40 * Second \<le> Member z \<and> Member z \<le> 100 * Second"
    using L(6) by (simp add: cfg w40) (simp add: Second_def)
  ultimately show ?thesis using pre by (auto simp: Second_def)
qed

text \<open>
  The claim as stated fails when the log holds an entry later than \<open>now\<close>, as one logged
  by an instance whose clock is ahead: the check purges from 0 to \<open>now - window\<close> only,
  so the entry stays, outside \<open>[now - window, now]\<close>.
\<close>

theorem sliding_window_counterexample:
  "log_of st_future (100 * Second) ''id'' = Some [\<lparr>Score = 105 * Second, Member = 105 * Second\<rparr>]
   \<and> snd (slidingWindowCheck rl_sliding (env_at (100 * Second)) ''id'' st_future) ''id'' =
       Some \<lparr>val = RZSet [\<lparr>Score = 105 * Second, Member = 105 * Second\<rparr>,
                          \<lparr>Score = 100 * Second, Member = 100 * Second\<rparr>],
             expire_at = Some (220 * Second)\<rparr>
   \<and> \<not> (105 * Second \<le> 100 * Second)"
proof -
  have lg: "log_of st_future (t_check (env_at (100 * Second))) ''id'' =
      Some [\<lparr>Score = 105 * Second, Member = 105 * Second\<rparr>]"
    by (simp add: log_of_def st_future_def get_entry_def live_def Second_def)
  have cfg: "Window (config rl_sliding) = 60 * Second" "Limit (config rl_sliding) = 2"
    by (simp_all add: rl_sliding_def cfg_sliding_def)
  have w40: "100 * Second - 60 * Second = 40 * Second" by simp
  have sl: "sliding_log (100 * Second) (60 * Second)
        [\<lparr>Score = 105 * Second, Member = 105 * Second\<rparr>] =
      [\<lparr>Score = 105 * Second, Member = 105 * Second\<rparr>,
       \<lparr>Score = 100 * Second, Member = 100 * Second\<rparr>]"
    by (simp add: sliding_log_def Let_def stamp_def w40) (simp add: Second_def)
  have "snd (slidingWindowCheck rl_sliding (env_at (100 * Second)) ''id'' st_future) =
      st_future(''id'' \<mapsto> \<lparr>val = RZSet (sliding_log (t_check (env_at (100 * Second)))
            (Window (config rl_sliding)) [\<lparr>Score = 105 * Second, Member = 105 * Second\<rparr>]),
          expire_at = Some (t_check (env_at (100 * Second)) + Window (config rl_sliding) * 2)\<rparr>)"
    by (subst sliding_check_reaches_store[OF _ lg]) (simp_all add: cfg Second_def)
  then show ?thesis using lg by (simp add: cfg sl) (simp add: Second_def)
qed

text \<open>
  The scores are rounded. At the nanosecond timestamps of the present the \<open>float64\<close>
  values are 256 ns apart, so an entry logged 1 ns after \<open>now - window\<close> has the score
  of \<open>now - window\<close> and is purged with the older ones: with limit 1 and a window of
  60 s the check at \<open>now\<close> finds the log empty and allows the request.
\<close>

lemma float64_present:
  "float64 1700000000000000001 = 1700000000000000000"
  "float64 1700000000000000000 = 1700000000000000000"
  "float64 1700000060000000000 = 1700000060000000000"
proof -
  have "quantum 1700000000000000001 = 2 ^ 8" by (rule quantum_binade) simp_all
  then show "float64 1700000000000000001 = 1700000000000000000"
    by (simp add: float64_def Let_def)
  have "quantum 1700000000000000000 = 2 ^ 8" by (rule quantum_binade) simp_all
  then show "float64 1700000000000000000 = 1700000000000000000"
    by (simp add: float64_def Let_def)
  have "quantum 1700000060000000000 = 2 ^ 8" by (rule quantum_binade) simp_all
  then show "float64 1700000060000000000 = 1700000060000000000"
    by (simp add: float64_def Let_def)
qed

lemma sliding_window_boundary_rounding:
  "stamped \<lparr>Score = 1700000000000000000, Member = 1700000000000000001\<rparr>
   \<and> 1700000060000000000 - Window (config rl_sliding) < 1700000000000000001
   \<and> slidingWindowCheck (rl_sliding\<lparr>config := (config rl_sliding)\<lparr>Limit := 1\<rparr>\<rparr>)
       (env_at 1700000060000000000) ''id'' st_boundary =
      ((True, 0, 1700000120, None),
       st_boundary(''id'' \<mapsto>
         \<lparr>val = RZSet [\<lparr>Score = 1700000060000000000, Member = 1700000060000000000\<rparr>],
          expire_at = Some 1700000180000000000\<rparr>))"
proof -
  let ?rl = "rl_sliding\<lparr>config := (config rl_sliding)\<lparr>Limit := 1\<rparr>\<rparr>"
  have cfg: "Window (config ?rl) = 60000000000" "Limit (config ?rl) = 1"
    "Window (config rl_sliding) = 60000000000"
    by (simp_all add: rl_sliding_def cfg_sliding_def Second_def)
  have lg: "log_of st_boundary (t_check (env_at 1700000060000000000)) ''id'' =
      Some [\<lparr>Score = 1700000000000000000, Member = 1700000000000000001\<rparr>]"
    by (simp add: log_of_def st_boundary_def get_entry_def live_def)
  have sl: "sliding_log 1700000060000000000 60000000000
        [\<lparr>Score = 1700000000000000000, Member = 1700000000000000001\<rparr>] =
      [\<lparr>Score = 1700000060000000000, Member = 1700000060000000000\<rparr>]"
    by (simp add: sliding_log_def Let_def stamp_def float64_present)
  have "slidingWindowCheck ?rl (env_at 1700000060000000000) ''id'' st_boundary =
     ((int (length (sliding_log (t_check (env_at 1700000060000000000)) (Window (config ?rl))
          [\<lparr>Score = 1700000000000000000, Member = 1700000000000000001\<rparr>])) \<le> Limit (config ?rl),
       max 0 (wrap64 (Limit (config ?rl)
                - int (length (sliding_log (t_check (env_at 1700000060000000000))
                    (Window (config ?rl))
          [\<lparr>Score = 1700000000000000000, Member = 1700000000000000001\<rparr>])))),
       Unix (t_check (env_at 1700000060000000000) + Window (config ?rl)), None),
      st_boundary(''id'' \<mapsto> \<lparr>val = RZSet (sliding_log (t_check (env_at 1700000060000000000))
            (Window (config ?rl))
          [\<lparr>Score = 1700000000000000000, Member = 1700000000000000001\<rparr>]),
                  expire_at = Some (t_check (env_at 1700000060000000000) + Window (config ?rl) * 2)\<rparr>))"
    by (rule sliding_check_reaches_store[OF _ lg]) (simp_all add: cfg)
  then show ?thesis
    by (simp add: cfg sl stamped_def float64_present wrap64_def Unix_def Second_def)
qed

section \<open>Token bucket\<close>

lemma floor_numeral_div [simp]: "\<lfloor>numeral a / numeral b :: rat\<rfloor> = numeral a div numeral b"
  using floor_divide_of_int_eq[of "numeral a" "numeral b", where ?'a = rat] by simp

lemma ceiling_numeral_div [simp]: "\<lceil>numeral a / numeral b :: rat\<rceil> = - (- numeral a div numeral b)"
  using ceiling_divide_eq_div[of "numeral a" "numeral b", where ?'a = rat] by simp

lemma token_check_reaches_store:
  assumes "\<not> exec2_err env"
  shows "tokenBucketCheck rl env key st =
     ((1 \<le> refilled rl env key st,
       max 0 (trunc (tokens_after rl env key st)),
       (if tokens_after rl env key st < 1
        then wrap64 (Unix (t_check env)
                     + trunc ((1 - tokens_after rl env key st) / refill_rate rl))
        else Unix (t_check env)),
       None),
      st(key @ '':tokens'' \<mapsto>
           \<lparr>val = RDec (round2 (tokens_after rl env key st)),
            expire_at = (if 0 < wrap64 (Window (config rl) * 2)
                         then Some (t_check env + wrap64 (Window (config rl) * 2)) else None)\<rparr>,
         key @ '':last_refill'' \<mapsto>
           \<lparr>val = RInt (Unix (t_check env)),
            expire_at = (if 0 < wrap64 (Window (config rl) * 2)
                         then Some (t_check env + wrap64 (Window (config rl) * 2)) else None)\<rparr>))"
  using assms
  unfolding tokenBucketCheck_def tokens_after_def refilled_def stored_tokens_def stored_refill_def
    refill_rate_def redis_set_def Let_def min_def max_def
  by (simp add: not_less)

lemma token_reset_with_token_left:
  "\<not> exec2_err env \<Longrightarrow> 1 \<le> tokens_after rl env key st \<Longrightarrow>
   fst (snd (snd (fst (tokenBucketCheck rl env key st)))) = Unix (t_check env)"
  by (simp add: token_check_reaches_store)

lemma token_reset_without_token:
  "\<not> exec2_err env \<Longrightarrow> tokens_after rl env key st < 1 \<Longrightarrow>
   fst (snd (snd (fst (tokenBucketCheck rl env key st)))) =
     wrap64 (Unix (t_check env) + trunc ((1 - tokens_after rl env key st) / refill_rate rl))"
  by (simp add: token_check_reaches_store)

lemma trunc_below_ceiling:
  assumes "0 \<le> x" and "x \<notin> \<int>"
  shows "trunc x = \<lceil>x\<rceil> - 1"
proof -
  have "x \<noteq> of_int \<lfloor>x\<rfloor>" using assms(2) by (metis Ints_of_int)
  then show ?thesis using assms(1) by (simp add: trunc_def ceiling_altdef)
qed

lemma Unix_Second [simp]: "Unix (n * Second) = n"
  by (simp add: Unix_def Second_def)

lemma rl_token_config:
  "Strategy (config rl_token) = TokenBucket" "Limit (config rl_token) = 3"
  "Window (config rl_token) = 2 * Second"
  by (simp_all add: rl_token_def cfg_token_def)

lemma rl_token_rate: "refill_rate rl_token = 3 / 2"
  by (simp add: refill_rate_def rl_token_config)

lemma rl_token_fresh:
  "stored_tokens rl_token (env_at (5 * Second)) ''id'' Map.empty = 3"
  "stored_refill (env_at (5 * Second)) ''id'' Map.empty = 5"
  by (simp_all add: stored_tokens_def stored_refill_def redis_get_def get_entry_def
      rl_token_config)

lemma rl_token_stored:
  "stored_tokens rl_token (env_at (5 * Second)) ''id'' (st_bucket q) = q"
  "stored_refill (env_at (5 * Second)) ''id'' (st_bucket q) = 5"
  by (simp_all add: stored_tokens_def stored_refill_def redis_get_def get_entry_def live_def
      st_bucket_def ParseFloat_def ParseInt_def Second_def)

lemma rl_token_tokens_after:
  "tokens_after rl_token (env_at (5 * Second)) ''id'' Map.empty = 2"
  "tokens_after rl_token (env_at (5 * Second)) ''id'' (st_bucket 2) = 1"
  "tokens_after rl_token (env_at (5 * Second)) ''id'' (st_bucket 1) = 0"
  "tokens_after rl_token (env_at (5 * Second)) ''id'' (st_bucket 0) = 0"
  by (simp_all add: tokens_after_def refilled_def rl_token_fresh rl_token_stored
      rl_token_config)

lemma rl_token_refilled:
  "refilled rl_token (env_at (5 * Second)) ''id'' Map.empty = 3"
  "refilled rl_token (env_at (5 * Second)) ''id'' (st_bucket 2) = 2"
  "refilled rl_token (env_at (5 * Second)) ''id'' (st_bucket 1) = 1"
  "refilled rl_token (env_at (5 * Second)) ''id'' (st_bucket 0) = 0"
  by (simp_all add: refilled_def rl_token_fresh rl_token_stored rl_token_config)

lemma round2_small: "round2 0 = 0" "round2 1 = 1" "round2 2 = 2"
  by (simp_all add: round2_def)

lemma st_bucket_update:
  "Map.empty(''id:tokens'' \<mapsto> \<lparr>val = RDec q, expire_at = Some (9 * Second)\<rparr>,
      ''id:last_refill'' \<mapsto> \<lparr>val = RInt 5, expire_at = Some (9 * Second)\<rparr>) = st_bucket q"
  "(st_bucket q')(''id:tokens'' \<mapsto> \<lparr>val = RDec q, expire_at = Some (9 * Second)\<rparr>,
      ''id:last_refill'' \<mapsto> \<lparr>val = RInt 5, expire_at = Some (9 * Second)\<rparr>) = st_bucket q"
  by (auto simp: st_bucket_def)

lemma Second_pos [simp]: "0 < Second"
  by (simp add: Second_def)

lemma rl_token_ttl:
  "wrap64 (2 * Second * 2) = 2 * Second * 2" "wrap64 (4 * Second) = 4 * Second"
  "5 * Second + 2 * Second * 2 = 9 * Second" "0 < 2 * Second * 2"
  by (simp_all add: Second_def)

lemma token_four_checks:
  "tokenBucketCheck rl_token (env_at (5 * Second)) ''id'' Map.empty =
     ((True, 2, 5, None), st_bucket 2)"
  "tokenBucketCheck rl_token (env_at (5 * Second)) ''id'' (st_bucket 2) =
     ((True, 1, 5, None), st_bucket 1)"
  "tokenBucketCheck rl_token (env_at (5 * Second)) ''id'' (st_bucket 1) =
     ((True, 0, 5, None), st_bucket 0)"
  "tokenBucketCheck rl_token (env_at (5 * Second)) ''id'' (st_bucket 0) =
     ((False, 0, 5, None), st_bucket 0)"
  by (simp_all add: token_check_reaches_store rl_token_tokens_after rl_token_refilled
      rl_token_rate rl_token_config round2_small trunc_def st_bucket_update rl_token_ttl)

text \<open>
  Claim C4 fails on the code. Four checks of one identity within one second (Unix second
  5) through a token bucket of limit 3 and window 2 s, so a refill rate of 1.5 tokens
  per second, on an empty store: the first three are allowed, the fourth is denied with
  no token left, and its \<open>resetAt\<close> is 5, the current second, where the claim gives
  \<open>now + ceil((1 - 0) / 1.5) = 6\<close>. The check converts the quotient with \<open>int64\<close>, which
  drops the fraction (\<open>token_reset_without_token\<close>, \<open>trunc_below_ceiling\<close>), although
  its comment announces the time ``when bucket refills to 1 token'': at second 5 the
  bucket still holds no token.
\<close>

theorem token_bucket_reset_truncated:
  "checks rl_token ''id'' [5 * Second, 5 * Second, 5 * Second, 5 * Second] Map.empty =
     ([(True, 2, 5, None), (True, 1, 5, None), (True, 0, 5, None), (False, 0, 5, None)],
      st_bucket 0)
   \<and> tokens_after rl_token (env_at (5 * Second)) ''id'' (st_bucket 0) = 0
   \<and> Unix (5 * Second) +
       \<lceil>(1 - tokens_after rl_token (env_at (5 * Second)) ''id'' (st_bucket 0))
          / refill_rate rl_token\<rceil> = 6"
  by (simp add: checkRateLimit_token[OF rl_token_config(1)] token_four_checks
      rl_token_tokens_after rl_token_rate)

end
